theory Spec2Isabelle
  imports Main "HOL-Library.Sublist"
begin

section \<open>Python string and regular expression primitives used by docformatter.py\<close>

text \<open>
  Python strings are modelled as \<^typ>\<open>string\<close>; a character is a code point below 256.
  The three characters the program names explicitly are the line feed and the two quote
  characters.
\<close>

abbreviation nl :: char where "nl \<equiv> CHR 0x0A"
abbreviation dq :: char where "dq \<equiv> CHR 0x22"
abbreviation sq :: char where "sq \<equiv> CHR 0x27"

abbreviation triple_double :: string where "triple_double \<equiv> [dq, dq, dq]"
abbreviation triple_single :: string where "triple_single \<equiv> [sq, sq, sq]"
abbreviation quad_single :: string where "quad_single \<equiv> [sq, sq, sq, sq]"

text \<open>
  \<open>str.isspace\<close> on one character, which is also what \<open>str.strip\<close> removes and what
  the regular expression class \<open>\s\<close> matches: the code points 9 to 13, 28 to 32, 133
  and 160.
\<close>

definition isspace :: "char \<Rightarrow> bool" where
  "isspace c \<longleftrightarrow>
     c \<in> set [CHR 0x09, CHR 0x0A, CHR 0x0B, CHR 0x0C, CHR 0x0D,
              CHR 0x1C, CHR 0x1D, CHR 0x1E, CHR 0x1F, CHR 0x20, CHR 0x85, CHR 0xA0]"

definition lstrip :: "string \<Rightarrow> string" where
  "lstrip s = dropWhile isspace s"

definition rstrip :: "string \<Rightarrow> string" where
  "rstrip s = rev (dropWhile isspace (rev s))"

definition strip :: "string \<Rightarrow> string" where
  "strip s = lstrip (rstrip s)"

definition startswith :: "string \<Rightarrow> string \<Rightarrow> bool" where
  "startswith s p \<longleftrightarrow> prefix p s"

definition endswith :: "string \<Rightarrow> string \<Rightarrow> bool" where
  "endswith s p \<longleftrightarrow> suffix p s"

text \<open>\<open>s.find(sub)\<close> and \<open>s.rfind(sub)\<close>: the first and the last index at which \<open>sub\<close> occurs.\<close>

fun find_sub :: "string \<Rightarrow> string \<Rightarrow> nat option" where
  "find_sub sub [] = (if sub = [] then Some 0 else None)"
| "find_sub sub (c # cs) =
     (if prefix sub (c # cs) then Some 0 else map_option Suc (find_sub sub cs))"

fun rfind_sub :: "string \<Rightarrow> string \<Rightarrow> nat option" where
  "rfind_sub sub [] = (if sub = [] then Some 0 else None)"
| "rfind_sub sub (c # cs) =
     (case rfind_sub sub cs of
        Some i \<Rightarrow> Some (Suc i)
      | None \<Rightarrow> if prefix sub (c # cs) then Some 0 else None)"

text \<open>\<open>s.split(sep, 1)\<close> and \<open>s.rsplit(sep, 1)\<close>: at most one cut, at the first or the last
  occurrence of the separator.\<close>

definition split1 :: "string \<Rightarrow> string \<Rightarrow> string list" where
  "split1 sep s =
     (case find_sub sep s of
        None \<Rightarrow> [s]
      | Some i \<Rightarrow> [take i s, drop (i + length sep) s])"

definition rsplit1 :: "string \<Rightarrow> string \<Rightarrow> string list" where
  "rsplit1 sep s =
     (case rfind_sub sep s of
        None \<Rightarrow> [s]
      | Some i \<Rightarrow> [take i s, drop (i + length sep) s])"

text \<open>\<open>s.split(c)\<close> for a one-character separator: every occurrence cuts, and the result
  always has at least one element.\<close>

fun split_on :: "char \<Rightarrow> string \<Rightarrow> string list" where
  "split_on c [] = [[]]"
| "split_on c (x # xs) =
     (if x = c then [] # split_on c xs
      else (case split_on c xs of [] \<Rightarrow> [[x]] | y # ys \<Rightarrow> (x # y) # ys))"

text \<open>\<open>sep.join(parts)\<close>.\<close>

fun join_str :: "string \<Rightarrow> string list \<Rightarrow> string" where
  "join_str sep [] = []"
| "join_str sep [x] = x"
| "join_str sep (x # y # ys) = x @ sep @ join_str sep (y # ys)"

subsection \<open>Regular expressions\<close>

text \<open>
  The two patterns of the program, \<open>'\s*\n\s*'\<close> and \<open>'\.\s'\<close>, are sequences of items;
  an item is one character of a class, or a greedy star over a class.
\<close>

datatype item = One "char \<Rightarrow> bool" | Star "char \<Rightarrow> bool"

abbreviation whitespace_newline_whitespace :: "item list" where
  "whitespace_newline_whitespace \<equiv> [Star isspace, One (\<lambda>c. c = nl), Star isspace]"

abbreviation period_whitespace :: "item list" where
  "period_whitespace \<equiv> [One (\<lambda>c. c = CHR ''.''), One isspace]"

text \<open>
  The match of a pattern at the start of a text, as the backtracking matcher of \<open>re\<close> finds
  it: a star takes the next character whenever it can, and gives it back only when the rest
  of the pattern fails behind it. The result is the length of the match.
\<close>

fun re_match :: "item list \<Rightarrow> string \<Rightarrow> nat option" where
  "re_match [] s = Some 0"
| "re_match (One p # items) [] = None"
| "re_match (One p # items) (c # cs) =
     (if p c then map_option Suc (re_match items cs) else None)"
| "re_match (Star p # items) [] = re_match items []"
| "re_match (Star p # items) (c # cs) =
     (if p c
      then (case re_match (Star p # items) cs of
              Some n \<Rightarrow> Some (Suc n)
            | None \<Rightarrow> re_match items (c # cs))
      else re_match items (c # cs))"

text \<open>The leftmost match: the index where it starts and its length.\<close>

fun re_search :: "item list \<Rightarrow> string \<Rightarrow> (nat \<times> nat) option" where
  "re_search items [] = map_option (Pair 0) (re_match items [])"
| "re_search items (c # cs) =
     (case re_match items (c # cs) of
        Some n \<Rightarrow> Some (0, n)
      | None \<Rightarrow> map_option (\<lambda>(i, n). (Suc i, n)) (re_search items cs))"

text \<open>
  \<open>re.split(pattern, string=s, maxsplit=1)\<close> for a pattern without groups: the text
  before the leftmost match and the text behind it, or the one element \<open>s\<close> without a
  match.
\<close>

definition re_split1 :: "item list \<Rightarrow> string \<Rightarrow> string list" where
  "re_split1 items s =
     (case re_search items s of
        None \<Rightarrow> [s]
      | Some (i, n) \<Rightarrow> [take i s, drop (i + n) s])"

text \<open>
  \<open>re.sub(pattern, repl, s)\<close>: every match, found from left to right, is replaced and the
  scan goes on behind it; where nothing matches the character is copied. Both patterns of
  the program hold an item that takes a character, so they never match the empty text, and
  what \<open>re.sub\<close> does with an empty match is not modelled: it counts as no match.
\<close>

function re_sub :: "item list \<Rightarrow> string \<Rightarrow> string \<Rightarrow> string" where
  "re_sub items repl [] = []"
| "re_sub items repl (c # cs) =
     (case re_match items (c # cs) of
        Some (Suc n) \<Rightarrow> repl @ re_sub items repl (drop n cs)
      | _ \<Rightarrow> c # re_sub items repl cs)"
  by pat_completeness auto
termination
  by (relation "measure (\<lambda>(items, repl, s). length s)") auto

section \<open>The docstring formatter\<close>

datatype error = AssertionError | IndexError | TokenError

text \<open>\<open>xs[i]\<close> raises \<open>IndexError\<close> out of range.\<close>

definition getitem :: "'a list \<Rightarrow> nat \<Rightarrow> error + 'a" where
  "getitem xs i = (if i < length xs then Inr (xs ! i) else Inl IndexError)"

definition starts_with_triple :: "string \<Rightarrow> bool" where
  "starts_with_triple string \<longleftrightarrow>
     startswith (strip string) triple_double \<or> startswith (strip string) quad_single"

definition strip_docstring :: "string \<Rightarrow> error + string" where
  "strip_docstring docstring =
     (if startswith (lstrip docstring) triple_single
         \<and> \<not> endswith (rstrip docstring) triple_single
      then Inl AssertionError
      else
        let triple = (if startswith (lstrip docstring) triple_single
                      then triple_single else triple_double)
        in case getitem (split1 triple docstring) 1 of
             Inl e \<Rightarrow> Inl e
           | Inr rest \<Rightarrow>
               (case getitem (rsplit1 triple rest) 0 of
                  Inl e \<Rightarrow> Inl e
                | Inr inner \<Rightarrow> Inr (strip inner)))"

definition normalize_summary :: "string \<Rightarrow> string" where
  "normalize_summary summary =
     (let summary' = re_sub whitespace_newline_whitespace '' '' (strip summary)
      in if \<not> endswith summary' ''.'' then summary' @ ''.'' else summary')"

definition indent_non_indented :: "string \<Rightarrow> string \<Rightarrow> string" where
  "indent_non_indented line indentation =
     (if lstrip line = line then indentation @ line else line)"

definition split_summary_and_description :: "string \<Rightarrow> string \<times> string" where
  "split_summary_and_description contents =
     (let split = split_on nl contents
      in if length split > 1 \<and> strip (split ! 1) = []
         then (split ! 0, join_str [nl] (drop 2 split))
         else
           let split' = re_split1 period_whitespace contents
           in if length split' = 2
              then (strip (split' ! 0) @ ''.'', strip (split' ! 1))
              else (strip (split' ! 0), []))"

definition format_docstring :: "string \<Rightarrow> string \<Rightarrow> error + string" where
  "format_docstring indentation docstring =
     (case strip_docstring docstring of
        Inl e \<Rightarrow> Inl e
      | Inr contents \<Rightarrow>
          if contents = [] then Inr []
          else
            case split_summary_and_description contents of
              (summary, description) \<Rightarrow>
                if description \<noteq> []
                then Inr (triple_double @ normalize_summary summary @ [nl, nl]
                          @ join_str [nl]
                              (map (\<lambda>l. rstrip (indent_non_indented l indentation))
                                   (split_on nl description))
                          @ [nl, nl] @ indentation @ triple_double)
                else Inr (triple_double @ contents @ triple_double))"

section \<open>The reassembly loop\<close>

text \<open>
  A token of \<open>tokenize.generate_tokens\<close>: its type, its text, and the row and column
  where it starts and where it ends. Rows count from 1 and columns from 0.
\<close>

datatype token_type =
  ENDMARKER | NAME | NUMBER | STRING | NEWLINE | INDENT | DEDENT | OP | COMMENT | NL | ERRORTOKEN

record token =
  token_type :: token_type
  token_string :: string
  start_row :: int
  start_column :: int
  end_row :: int
  end_column :: int

abbreviation Tok :: "token_type \<Rightarrow> string \<Rightarrow> int \<Rightarrow> int \<Rightarrow> int \<Rightarrow> int \<Rightarrow> token" where
  "Tok ty s sr sc er ec \<equiv>
     \<lparr>token_type = ty, token_string = s, start_row = sr, start_column = sc,
      end_row = er, end_column = ec\<rparr>"

text \<open>The local variables of \<open>format_code\<close> that live across iterations of its loop.\<close>

record loop_state =
  formatted :: string
  previous_token_string :: string
  previous_token_type :: "token_type option"
  last_row :: int
  last_column :: int

definition initial_state :: loop_state where
  "initial_state =
     \<lparr>formatted = [], previous_token_string = [], previous_token_type = None,
      last_row = 0, last_column = - 1\<rparr>"

text \<open>One iteration of the loop body; an exception of \<open>format_docstring\<close> leaves the loop.\<close>

definition format_token :: "loop_state \<Rightarrow> token \<Rightarrow> error + loop_state" where
  "format_token st tok =
     (let last_column' = (if start_row tok > last_row st then 0 else last_column st);
          formatted' = (if start_column tok > last_column'
                        then formatted st @ replicate (nat (start_column tok - last_column')) (CHR '' '')
                        else formatted st)
      in if token_type tok = STRING \<and> starts_with_triple (token_string tok)
            \<and> previous_token_type st = Some INDENT
         then (case format_docstring (previous_token_string st) (token_string tok) of
                 Inl e \<Rightarrow> Inl e
               | Inr text \<Rightarrow>
                   Inr \<lparr>formatted = formatted' @ text,
                        previous_token_string = token_string tok,
                        previous_token_type = Some (token_type tok),
                        last_row = end_row tok, last_column = end_column tok\<rparr>)
         else Inr \<lparr>formatted = formatted' @ token_string tok,
                   previous_token_string = token_string tok,
                   previous_token_type = Some (token_type tok),
                   last_row = end_row tok, last_column = end_column tok\<rparr>)"

fun format_tokens :: "loop_state \<Rightarrow> token list \<Rightarrow> error + loop_state" where
  "format_tokens st [] = Inr st"
| "format_tokens st (tok # toks) =
     (case format_token st tok of
        Inl e \<Rightarrow> Inl e
      | Inr st' \<Rightarrow> format_tokens st' toks)"

text \<open>
  \<open>tokenize.generate_tokens\<close> belongs to the standard library, so the tokenizer is a
  parameter of \<open>format_code\<close>. It is a generator: it yields tokens and may then raise, which
  is the pair of the tokens yielded and the exception, if any, that ends the stream.
\<close>

type_synonym tokenizer = "string \<Rightarrow> token list \<times> error option"

definition format_code :: "tokenizer \<Rightarrow> string \<Rightarrow> error + string" where
  "format_code generate_tokens source =
     (case generate_tokens source of
        (toks, failure) \<Rightarrow>
          (case format_tokens initial_state toks of
             Inl e \<Rightarrow> Inl e
           | Inr st \<Rightarrow> (case failure of Some e \<Rightarrow> Inl e | None \<Rightarrow> Inr (formatted st))))"

section \<open>The two patterns in closed form\<close>

text \<open>
  What the matcher computes for the two patterns of the program, written without the
  matcher; the lemmas of the section on regular expressions below prove the agreement.
  A period followed by whitespace is searched from the left. A run of whitespace that
  holds a line feed is matched as a whole by \<open>'\s*\n\s*'\<close>: the first star takes the run
  and gives characters back until a line feed follows, so it stops before the last line
  feed of the run, and the second star takes what is left.
\<close>

fun search_period_space :: "string \<Rightarrow> nat option" where
  "search_period_space [] = None"
| "search_period_space [c] = None"
| "search_period_space (c # d # cs) =
     (if c = CHR ''.'' \<and> isspace d then Some 0
      else map_option Suc (search_period_space (d # cs)))"

definition re_split_period_space :: "string \<Rightarrow> string list" where
  "re_split_period_space s =
     (case search_period_space s of
        None \<Rightarrow> [s]
      | Some i \<Rightarrow> [take i s, drop (i + 2) s])"

function re_sub_newlines :: "string \<Rightarrow> string" where
  "re_sub_newlines [] = []"
| "re_sub_newlines (c # cs) =
     (if nl \<in> set (takeWhile isspace (c # cs))
      then CHR '' '' # re_sub_newlines (dropWhile isspace (c # cs))
      else c # re_sub_newlines cs)"
  by pat_completeness auto
termination
proof (relation "measure length")
  show "wf (measure length)" by simp
next
  fix c :: char and cs :: string
  assume "nl \<in> set (takeWhile isspace (c # cs))"
  then have "isspace c" by (auto split: if_splits)
  then have "dropWhile isspace (c # cs) = dropWhile isspace cs" by simp
  moreover have "length (dropWhile isspace cs) \<le> length cs" by (rule length_dropWhile_le)
  ultimately show "(dropWhile isspace (c # cs), c # cs) \<in> measure length" by simp
next
  fix c :: char and cs :: string
  show "(cs, c # cs) \<in> measure length" by simp
qed

section \<open>Definitions used to state the claims\<close>

text \<open>
  The two conditions of \<open>split_summary_and_description\<close> in the words of its description:
  the second line of the contents is blank, and a period directly followed by one whitespace
  character stands at index \<open>i\<close>.
\<close>

definition second_line_blank :: "string \<Rightarrow> bool" where
  "second_line_blank s \<longleftrightarrow> 1 < length (split_on nl s) \<and> strip (split_on nl s ! 1) = []"

definition period_space_at :: "string \<Rightarrow> nat \<Rightarrow> bool" where
  "period_space_at s i \<longleftrightarrow> Suc i < length s \<and> s ! i = CHR ''.'' \<and> isspace (s ! Suc i)"

text \<open>
  What the loop of \<open>format_code\<close> writes when no token is replaced: before each token
  the run of spaces that fills the distance from the cursor to the token's start column
  (the cursor's column counts as 0 when the token starts on a later row), then the token's
  own text.
\<close>

definition gap :: "int \<Rightarrow> int \<Rightarrow> token \<Rightarrow> string" where
  "gap row col tok =
     replicate (nat (start_column tok - (if start_row tok > row then 0 else col))) (CHR '' '')"

fun spaced_text :: "int \<Rightarrow> int \<Rightarrow> token list \<Rightarrow> string" where
  "spaced_text row col [] = []"
| "spaced_text row col (tok # toks) =
     gap row col tok @ token_string tok @ spaced_text (end_row tok) (end_column tok) toks"

text \<open>
  No token of the stream passes the test of the loop (a \<open>STRING\<close> token for which
  \<open>starts_with_triple\<close> holds, directly behind an \<open>INDENT\<close> token); \<open>previous\<close> is
  the type of the token before the stream, if any.
\<close>

fun no_candidate :: "token_type option \<Rightarrow> token list \<Rightarrow> bool" where
  "no_candidate previous [] = True"
| "no_candidate previous (tok # toks) =
     (\<not> (token_type tok = STRING \<and> starts_with_triple (token_string tok)
          \<and> previous = Some INDENT)
      \<and> no_candidate (Some (token_type tok)) toks)"

text \<open>
  A tokenizer given as a finite table from source texts to token streams; it raises on every
  other text. The tables below hold the streams that \<open>tokenize.generate_tokens\<close> of
  CPython 3.11 yields for the texts named.
\<close>

definition tokenizer_of :: "(string \<times> token list) list \<Rightarrow> tokenizer" where
  "tokenizer_of table source =
     (case map_of table source of
        Some toks \<Rightarrow> (toks, None)
      | None \<Rightarrow> ([], Some TokenError))"

text \<open>
  The one-line program \<open>x = 1\<close>, written with a tab and with a space on each side of the
  equals sign. Both texts have the same tokens at the same positions.
\<close>

definition source_tabs :: string where
  "source_tabs = ''x'' @ [CHR 0x09] @ ''='' @ [CHR 0x09] @ ''1'' @ [nl]"

definition source_spaces :: string where
  "source_spaces = ''x = 1'' @ [nl]"

definition tokens_assignment :: "token list" where
  "tokens_assignment =
     [Tok NAME ''x'' 1 0 1 1, Tok OP ''='' 1 2 1 3, Tok NUMBER ''1'' 1 4 1 5,
      Tok NEWLINE [nl] 1 5 1 6, Tok ENDMARKER [] 2 0 2 0]"

text \<open>An \<open>if\<close> block whose body is a string between triple single quotes.\<close>

definition source_single_quoted :: string where
  "source_single_quoted = ''if x:'' @ [nl] @ ''    '' @ triple_single @ ''a. b'' @ triple_single @ [nl]"

definition tokens_single_quoted :: "token list" where
  "tokens_single_quoted =
     [Tok NAME ''if'' 1 0 1 2, Tok NAME ''x'' 1 3 1 4, Tok OP '':'' 1 4 1 5,
      Tok NEWLINE [nl] 1 5 1 6,
      Tok INDENT ''    '' 2 0 2 4,
      Tok STRING (triple_single @ ''a. b'' @ triple_single) 2 4 2 14,
      Tok NEWLINE [nl] 2 14 2 15,
      Tok DEDENT [] 3 0 3 0, Tok ENDMARKER [] 3 0 3 0]"

text \<open>
  An \<open>if\<close> block whose body is an empty docstring followed by a second triple-quoted
  string; the text that \<open>format_code\<close> makes of it, with its own tokens; and the text that
  \<open>format_code\<close> makes of that.
\<close>

definition source_two_strings :: string where
  "source_two_strings =
     ''if x:'' @ [nl] @ ''    '' @ triple_double @ '' '' @ triple_double @ [nl]
     @ ''    '' @ triple_double @ ''a. b'' @ triple_double @ [nl]"

definition tokens_two_strings :: "token list" where
  "tokens_two_strings =
     [Tok NAME ''if'' 1 0 1 2, Tok NAME ''x'' 1 3 1 4, Tok OP '':'' 1 4 1 5,
      Tok NEWLINE [nl] 1 5 1 6,
      Tok INDENT ''    '' 2 0 2 4,
      Tok STRING (triple_double @ '' '' @ triple_double) 2 4 2 11,
      Tok NEWLINE [nl] 2 11 2 12,
      Tok STRING (triple_double @ ''a. b'' @ triple_double) 3 4 3 14,
      Tok NEWLINE [nl] 3 14 3 15,
      Tok DEDENT [] 4 0 4 0, Tok ENDMARKER [] 4 0 4 0]"

definition source_first_pass :: string where
  "source_first_pass =
     ''if x:'' @ [nl] @ ''    '' @ [nl]
     @ ''    '' @ triple_double @ ''a. b'' @ triple_double @ [nl]"

definition tokens_first_pass :: "token list" where
  "tokens_first_pass =
     [Tok NAME ''if'' 1 0 1 2, Tok NAME ''x'' 1 3 1 4, Tok OP '':'' 1 4 1 5,
      Tok NEWLINE [nl] 1 5 1 6,
      Tok NL [nl] 2 4 2 5,
      Tok INDENT ''    '' 3 0 3 4,
      Tok STRING (triple_double @ ''a. b'' @ triple_double) 3 4 3 14,
      Tok NEWLINE [nl] 3 14 3 15,
      Tok DEDENT [] 4 0 4 0, Tok ENDMARKER [] 4 0 4 0]"

definition source_second_pass :: string where
  "source_second_pass =
     ''if x:'' @ [nl] @ ''    '' @ [nl]
     @ ''    '' @ triple_double @ ''a.'' @ [nl, nl] @ ''    b'' @ [nl, nl]
     @ ''    '' @ triple_double @ [nl]"

text \<open>
  The tokenizer reads the result of a first pass back as the tokens of the source: token by
  token the type is the same and the same number of spaces separates the token from the one
  before it; a token that the first pass copied has the same text, and a docstring candidate
  now has the text that \<open>format_docstring\<close> made of it, which is not empty, behind an
  indentation of whitespace without a line feed. The first four arguments are the cursors of
  the two passes, then the type and the text of the token before.
\<close>

fun read_back ::
  "int \<Rightarrow> int \<Rightarrow> int \<Rightarrow> int \<Rightarrow> token_type option \<Rightarrow> string \<Rightarrow> token list \<Rightarrow> token list \<Rightarrow> bool" where
  "read_back row col row' col' previous indentation [] [] = True"
| "read_back row col row' col' previous indentation (tok # toks) (tok' # toks') =
     (token_type tok' = token_type tok
      \<and> gap row' col' tok' = gap row col tok
      \<and> (if token_type tok = STRING \<and> starts_with_triple (token_string tok)
             \<and> previous = Some INDENT
          then format_docstring indentation (token_string tok) = Inr (token_string tok')
               \<and> token_string tok' \<noteq> []
               \<and> list_all isspace indentation \<and> nl \<notin> set indentation
          else token_string tok' = token_string tok)
      \<and> read_back (end_row tok) (end_column tok) (end_row tok') (end_column tok')
            (Some (token_type tok)) (token_string tok) toks toks')"
| "read_back row col row' col' previous indentation [] (tok' # toks') = False"
| "read_back row col row' col' previous indentation (tok # toks) [] = False"

text \<open>
  An \<open>if\<close> block with a docstring and an assignment, and the text that \<open>format_code\<close>
  makes of it, each with its tokens.
\<close>

definition source_docstring :: string where
  "source_docstring =
     ''if x:'' @ [nl] @ ''    '' @ triple_double @ ''a. b'' @ triple_double @ [nl]
     @ ''    y = 1'' @ [nl]"

definition tokens_docstring :: "token list" where
  "tokens_docstring =
     [Tok NAME ''if'' 1 0 1 2, Tok NAME ''x'' 1 3 1 4, Tok OP '':'' 1 4 1 5,
      Tok NEWLINE [nl] 1 5 1 6,
      Tok INDENT ''    '' 2 0 2 4,
      Tok STRING (triple_double @ ''a. b'' @ triple_double) 2 4 2 14,
      Tok NEWLINE [nl] 2 14 2 15,
      Tok NAME ''y'' 3 4 3 5, Tok OP ''='' 3 6 3 7, Tok NUMBER ''1'' 3 8 3 9,
      Tok NEWLINE [nl] 3 9 3 10,
      Tok DEDENT [] 4 0 4 0, Tok ENDMARKER [] 4 0 4 0]"

definition source_docstring_formatted :: string where
  "source_docstring_formatted =
     ''if x:'' @ [nl] @ ''    '' @ triple_double @ ''a.'' @ [nl, nl] @ ''    b'' @ [nl, nl]
     @ ''    '' @ triple_double @ [nl] @ ''    y = 1'' @ [nl]"

definition tokens_docstring_formatted :: "token list" where
  "tokens_docstring_formatted =
     [Tok NAME ''if'' 1 0 1 2, Tok NAME ''x'' 1 3 1 4, Tok OP '':'' 1 4 1 5,
      Tok NEWLINE [nl] 1 5 1 6,
      Tok INDENT ''    '' 2 0 2 4,
      Tok STRING (triple_double @ ''a.'' @ [nl, nl] @ ''    b'' @ [nl, nl]
                  @ ''    '' @ triple_double) 2 4 6 7,
      Tok NEWLINE [nl] 6 7 6 8,
      Tok NAME ''y'' 7 4 7 5, Tok OP ''='' 7 6 7 7, Tok NUMBER ''1'' 7 8 7 9,
      Tok NEWLINE [nl] 7 9 7 10,
      Tok DEDENT [] 8 0 8 0, Tok ENDMARKER [] 8 0 8 0]"

section \<open>Whitespace stripping\<close>

lemma isspace_simps:
  "isspace nl" "isspace (CHR '' '')" "\<not> isspace dq" "\<not> isspace sq" "\<not> isspace (CHR ''.'')"
  by (simp_all add: isspace_def)

lemma lstrip_Nil_iff: "lstrip s = [] \<longleftrightarrow> (\<forall>c \<in> set s. isspace c)"
  by (simp add: lstrip_def)

lemma rstrip_Nil_iff: "rstrip s = [] \<longleftrightarrow> (\<forall>c \<in> set s. isspace c)"
  by (simp add: rstrip_def)

lemma strip_Nil_iff: "strip s = [] \<longleftrightarrow> (\<forall>c \<in> set s. isspace c)"
proof
  assume "strip s = []"
  then have "\<forall>c \<in> set (rstrip s). isspace c"
    by (simp add: strip_def lstrip_Nil_iff)
  moreover have "s = rstrip s @ rev (takeWhile isspace (rev s))"
    by (metis rstrip_def rev_append rev_rev_ident takeWhile_dropWhile_id)
  moreover have "\<forall>c \<in> set (rev (takeWhile isspace (rev s))). isspace c"
    by (auto dest: set_takeWhileD)
  ultimately show "\<forall>c \<in> set s. isspace c"
    by (metis Un_iff set_append)
next
  assume "\<forall>c \<in> set s. isspace c"
  then have "rstrip s = []" by (simp add: rstrip_Nil_iff)
  then show "strip s = []" by (simp add: strip_def lstrip_def)
qed

lemma lstrip_id: "s = [] \<or> \<not> isspace (hd s) \<Longrightarrow> lstrip s = s"
  by (cases s) (auto simp: lstrip_def)

lemma rstrip_id: "s = [] \<or> \<not> isspace (last s) \<Longrightarrow> rstrip s = s"
  by (cases s rule: rev_cases) (auto simp: rstrip_def)

lemma strip_id: "s = [] \<or> (\<not> isspace (hd s) \<and> \<not> isspace (last s)) \<Longrightarrow> strip s = s"
  by (auto simp: strip_def lstrip_id rstrip_id)

lemma lstrip_hd: "lstrip s \<noteq> [] \<Longrightarrow> \<not> isspace (hd (lstrip s))"
  unfolding lstrip_def by (rule hd_dropWhile)

lemma rstrip_last: "rstrip s \<noteq> [] \<Longrightarrow> \<not> isspace (last (rstrip s))"
  unfolding rstrip_def by (simp add: last_rev hd_dropWhile)

lemma lstrip_last: "lstrip s \<noteq> [] \<Longrightarrow> last (lstrip s) = last s"
  unfolding lstrip_def
  by (metis append_Nil2 last_appendR takeWhile_dropWhile_id)

lemma strip_hd: "strip s \<noteq> [] \<Longrightarrow> \<not> isspace (hd (strip s))"
  unfolding strip_def by (rule lstrip_hd)

lemma strip_last: "strip s \<noteq> [] \<Longrightarrow> \<not> isspace (last (strip s))"
proof -
  assume a: "strip s \<noteq> []"
  then have "rstrip s \<noteq> []" by (auto simp: strip_def lstrip_def)
  then have "\<not> isspace (last (rstrip s))" by (rule rstrip_last)
  moreover have "last (strip s) = last (rstrip s)"
    using a unfolding strip_def by (rule lstrip_last)
  ultimately show ?thesis by simp
qed

lemma strip_strip: "strip (strip s) = strip s"
  by (rule strip_id) (metis strip_hd strip_last)

lemma lstrip_append_ws: "\<forall>c \<in> set ws. isspace c \<Longrightarrow> lstrip (ws @ s) = lstrip s"
  by (simp add: lstrip_def dropWhile_append)

lemma rstrip_append_ws: "\<forall>c \<in> set ws. isspace c \<Longrightarrow> rstrip (s @ ws) = rstrip s"
  by (simp add: rstrip_def dropWhile_append)

lemma lstrip_eq_iff: "lstrip l = l \<longleftrightarrow> l = [] \<or> \<not> isspace (hd l)"
proof (cases l)
  case Nil
  then show ?thesis by (simp add: lstrip_def)
next
  case (Cons c cs)
  have "isspace c \<Longrightarrow> dropWhile isspace cs \<noteq> c # cs"
    using length_dropWhile_le[of isspace cs]
    by (metis impossible_Cons)
  with Cons show ?thesis by (auto simp: lstrip_def)
qed

lemma set_rstrip: "set (rstrip s) \<subseteq> set s"
  unfolding rstrip_def using set_dropWhileD by fastforce



lemma endswith_single: "endswith s [c] \<longleftrightarrow> s \<noteq> [] \<and> last s = c"
  by (cases s rule: rev_cases) (auto simp: endswith_def suffix_def)


lemma rstrip_decomp: "s = rstrip s @ rev (takeWhile isspace (rev s))"
  by (metis rstrip_def rev_append rev_rev_ident takeWhile_dropWhile_id)

lemma rstrip_hd: "rstrip s \<noteq> [] \<Longrightarrow> hd (rstrip s) = hd s"
  using rstrip_decomp[of s] by (metis hd_append2)

section \<open>Finding the delimiters\<close>

lemma find_sub_skip:
  "sub \<noteq> [] \<Longrightarrow> hd sub \<notin> set ws \<Longrightarrow> find_sub sub (ws @ sub @ rest) = Some (length ws)"
proof (induction ws)
  case Nil
  then show ?case by (cases sub) auto
next
  case (Cons w ws)
  then have "\<not> prefix sub (w # ws @ sub @ rest)"
    by (cases sub) auto
  with Cons show ?case by simp
qed

lemma rfind_sub_Some_prefix:
  "rfind_sub sub s = Some i \<Longrightarrow> prefix sub (drop i s) \<and> i \<le> length s"
proof (induction s arbitrary: i)
  case Nil
  then show ?case by (auto split: if_splits)
next
  case (Cons c cs)
  then show ?case
    by (auto split: option.splits if_splits)
qed

lemma occurrence_ends_in_tail:
  assumes e: "sub @ ws = p @ sub @ r" and ne: "sub \<noteq> []" and lt: "length r < length ws"
  shows "last sub \<in> set ws"
proof -
  have len: "length sub + length ws = length p + length sub + length r"
    using e by (metis length_append add.assoc)
  with lt have p1: "1 \<le> length p" and p2: "length p - 1 < length ws" by linarith+
  have sl: "0 < length sub" using ne by simp
  let ?n = "length p + (length sub - 1)"
  have "(p @ sub @ r) ! ?n = (sub @ r) ! (length sub - 1)"
    by (rule nth_append_length_plus)
  also have "\<dots> = sub ! (length sub - 1)" using sl by (simp add: nth_append)
  also have "\<dots> = last sub" using ne by (simp add: last_conv_nth)
  finally have a: "(p @ sub @ r) ! ?n = last sub" .
  have "?n = length sub + (length p - 1)" using p1 sl by linarith
  then have "(sub @ ws) ! ?n = ws ! (length p - 1)"
    by (simp only: nth_append_length_plus)
  with a e have "last sub = ws ! (length p - 1)" by simp
  with p2 show ?thesis by simp
qed

lemma rfind_sub_none_tail:
  assumes "sub \<noteq> []" "last sub \<notin> set ws" "length s < length sub + length ws" "suffix s (sub @ ws)"
  shows "rfind_sub sub s = None"
proof (rule ccontr)
  assume "rfind_sub sub s \<noteq> None"
  then obtain i where i: "rfind_sub sub s = Some i" by auto
  then have p: "prefix sub (drop i s)" by (simp add: rfind_sub_Some_prefix)
  then obtain r where r: "drop i s = sub @ r" by (auto simp: prefix_def)
  from assms(4) obtain k where k: "sub @ ws = k @ s" by (auto simp: suffix_def)
  obtain t where s: "s = t @ sub @ r" using r by (metis append_take_drop_id)
  with k have e: "sub @ ws = (k @ t) @ sub @ r" by simp
  have "length s = length t + length sub + length r"
    unfolding s by simp
  with assms(3) have "length r < length ws" by linarith
  with e assms(1) have "last sub \<in> set ws" by (rule occurrence_ends_in_tail)
  with assms(2) show False by simp
qed

lemma rfind_sub_last:
  assumes "sub \<noteq> []" "last sub \<notin> set ws"
  shows "rfind_sub sub (xs @ sub @ ws) = Some (length xs)"
proof (induction xs)
  case Nil
  obtain a as where sub: "sub = a # as" using assms(1) by (cases sub) auto
  have "rfind_sub sub (as @ ws) = None"
    by (rule rfind_sub_none_tail[OF assms]) (auto simp: sub suffix_def intro: exI[of _ "[a]"])
  then show ?case by (simp add: sub)
next
  case (Cons x xs)
  then show ?case by simp
qed

lemma split1_wellformed:
  "sub \<noteq> [] \<Longrightarrow> hd sub \<notin> set ws \<Longrightarrow> split1 sub (ws @ sub @ rest) = [ws, rest]"
  by (simp add: split1_def find_sub_skip)

lemma rsplit1_wellformed:
  "sub \<noteq> [] \<Longrightarrow> last sub \<notin> set ws \<Longrightarrow> rsplit1 sub (xs @ sub @ ws) = [xs, ws]"
  by (simp add: rsplit1_def rfind_sub_last)

lemma strip_docstring_core:
  assumes "q \<noteq> []" "hd q \<notin> set ws" "last q \<notin> set ws'"
  shows "(case getitem (split1 q (ws @ q @ body @ q @ ws')) 1 of
            Inl e \<Rightarrow> Inl e
          | Inr rest \<Rightarrow>
              (case getitem (rsplit1 q rest) 0 of
                 Inl e \<Rightarrow> Inl e
               | Inr inner \<Rightarrow> Inr (strip inner))) = Inr (strip body)"
  using assms by (simp add: split1_wellformed rsplit1_wellformed getitem_def)

lemma strip_docstring_double:
  assumes ws: "\<forall>c \<in> set ws. isspace c" and ws': "\<forall>c \<in> set ws'. isspace c"
  shows "strip_docstring (ws @ triple_double @ body @ triple_double @ ws') = Inr (strip body)"
proof -
  let ?d = "ws @ triple_double @ body @ triple_double @ ws'"
  have nd: "dq \<notin> set ws" "dq \<notin> set ws'" using ws ws' isspace_simps by auto
  have "lstrip ?d = triple_double @ body @ triple_double @ ws'"
    using ws by (simp add: lstrip_def dropWhile_append isspace_simps)
  then have ns: "\<not> startswith (lstrip ?d) triple_single" by (simp add: startswith_def)
  show ?thesis
    unfolding strip_docstring_def Let_def
    using ns strip_docstring_core[of triple_double ws ws' body] nd by simp
qed

lemma strip_docstring_single:
  assumes ws: "\<forall>c \<in> set ws. isspace c" and ws': "\<forall>c \<in> set ws'. isspace c"
  shows "strip_docstring (ws @ triple_single @ body @ triple_single @ ws') = Inr (strip body)"
proof -
  let ?d = "ws @ triple_single @ body @ triple_single @ ws'"
  have nd: "sq \<notin> set ws" "sq \<notin> set ws'" using ws ws' isspace_simps by auto
  have "lstrip ?d = triple_single @ body @ triple_single @ ws'"
    using ws by (simp add: lstrip_def dropWhile_append isspace_simps)
  then have st: "startswith (lstrip ?d) triple_single" by (simp add: startswith_def)
  have "rstrip ?d = ws @ triple_single @ body @ triple_single"
    using ws' by (simp add: rstrip_def dropWhile_append isspace_simps)
  then have en: "endswith (rstrip ?d) triple_single"
    by (simp add: endswith_def suffix_def)
  show ?thesis
    unfolding strip_docstring_def Let_def
    using st en strip_docstring_core[of triple_single ws ws' body] nd by simp
qed

lemma strip_docstring_contents_stripped:
  assumes "strip_docstring docstring = Inr contents"
  shows "strip contents = contents"
proof -
  from assms obtain inner where "contents = strip inner"
    by (auto simp: strip_docstring_def Let_def split: if_splits sum.splits)
  then show ?thesis by (simp add: strip_strip)
qed

lemma strip_docstring_wrapped: "strip_docstring (triple_double @ x @ triple_double) = Inr (strip x)"
  using strip_docstring_double[of "[]" "[]" x] by simp

section \<open>Lines\<close>

lemma split_on_nonempty: "split_on c s \<noteq> []"
  by (induction s) (auto split: list.splits)

lemma split_on_no_sep: "x \<in> set (split_on c s) \<Longrightarrow> c \<notin> set x"
  by (induction s arbitrary: x) (auto split: list.splits if_splits)

lemma split_on_id: "c \<notin> set s \<Longrightarrow> split_on c s = [s]"
  by (induction s) auto

lemma split_on_append: "c \<notin> set a \<Longrightarrow> split_on c (a @ c # b) = a # split_on c b"
  by (induction a) (auto split: list.splits simp: split_on_nonempty)


lemma join_split_on: "join_str [c] (split_on c s) = s"
proof (induction s)
  case Nil
  then show ?case by simp
next
  case (Cons x xs)
  obtain y ys where y: "split_on c xs = y # ys"
    using split_on_nonempty[of c xs] by (cases "split_on c xs") auto
  show ?case
  proof (cases "x = c")
    case True
    with Cons y show ?thesis by simp
  next
    case False
    with Cons y show ?thesis by (cases ys) auto
  qed
qed

lemma split_on_join:
  "xs \<noteq> [] \<Longrightarrow> \<forall>x \<in> set xs. c \<notin> set x \<Longrightarrow> split_on c (join_str [c] xs) = xs"
proof (induction xs)
  case Nil
  then show ?case by simp
next
  case (Cons x xs)
  show ?case
  proof (cases xs)
    case Nil
    with Cons.prems show ?thesis by (simp add: split_on_id)
  next
    case (Cons y ys)
    have "split_on c (join_str [c] xs) = xs"
      using Cons.IH Cons.prems Cons by simp
    moreover have "split_on c (x @ c # join_str [c] xs) = x # split_on c (join_str [c] xs)"
      using Cons.prems by (simp add: split_on_append)
    ultimately show ?thesis using Cons by simp
  qed
qed

lemma split_on_last:
  "s \<noteq> [] \<Longrightarrow> last s \<noteq> c \<Longrightarrow>
   last (split_on c s) \<noteq> [] \<and> last (last (split_on c s)) = last s"
proof (induction s)
  case Nil
  then show ?case by simp
next
  case (Cons x xs)
  obtain y ys where y: "split_on c xs = y # ys"
    using split_on_nonempty[of c xs] by (cases "split_on c xs") auto
  show ?case
  proof (cases "xs = []")
    case True
    with Cons.prems show ?thesis by simp
  next
    case False
    with Cons have ih: "last (split_on c xs) \<noteq> [] \<and> last (last (split_on c xs)) = last xs"
      by simp
    show ?thesis
    proof (cases "x = c")
      case True
      with ih False y show ?thesis by simp
    next
      case neq: False
      show ?thesis
      proof (cases ys)
        case Nil
        with ih False y neq show ?thesis by simp
      next
        case (Cons z zs)
        with ih False y neq show ?thesis by simp
      qed
    qed
  qed
qed

lemma join_str_last:
  "xs \<noteq> [] \<Longrightarrow> last xs \<noteq> [] \<Longrightarrow>
   join_str sep xs \<noteq> [] \<and> last (join_str sep xs) = last (last xs)"
proof (induction xs)
  case Nil
  then show ?case by simp
next
  case (Cons x xs)
  show ?case
  proof (cases xs)
    case Nil
    with Cons.prems show ?thesis by simp
  next
    case (Cons y ys)
    with Cons.IH Cons.prems show ?thesis by simp
  qed
qed

section \<open>Regular expressions\<close>

lemma re_sub_newlines_match:
  "nl \<in> set (takeWhile isspace (c # cs)) \<Longrightarrow>
   re_sub_newlines (c # cs) = CHR '' '' # re_sub_newlines (dropWhile isspace (c # cs))"
  by (simp only: re_sub_newlines.simps if_True)

lemma re_sub_newlines_copy:
  "nl \<notin> set (takeWhile isspace (c # cs)) \<Longrightarrow> re_sub_newlines (c # cs) = c # re_sub_newlines cs"
  by (simp only: re_sub_newlines.simps if_False)

lemma re_match_star: "re_match [Star p] s = Some (length (takeWhile p s))"
  by (induction s) auto

lemma re_match_newline_tail:
  "re_match [One (\<lambda>c. c = nl), Star isspace] s =
     (case s of [] \<Rightarrow> None
      | c # cs \<Rightarrow> if c = nl then Some (Suc (length (takeWhile isspace cs))) else None)"
  by (cases s) (simp_all add: re_match_star)

lemma re_match_whitespace_newline:
  "re_match whitespace_newline_whitespace s =
     (if nl \<in> set (takeWhile isspace s) then Some (length (takeWhile isspace s)) else None)"
proof (induction s)
  case Nil
  then show ?case by simp
next
  case (Cons c cs)
  show ?case
  proof (cases "isspace c")
    case True
    show ?thesis
    proof (cases "nl \<in> set (takeWhile isspace cs)")
      case in_tail: True
      with True Cons show ?thesis by simp
    next
      case False
      with True Cons show ?thesis by (simp add: re_match_star)
    qed
  next
    case False
    then have "c \<noteq> nl" using isspace_simps(1) by auto
    with False show ?thesis by (simp add: re_match_star)
  qed
qed

lemma re_sub_whitespace_newline:
  "re_sub whitespace_newline_whitespace '' '' s = re_sub_newlines s"
proof (induction s rule: re_sub_newlines.induct)
  case 1
  then show ?case by simp
next
  case (2 c cs)
  show ?case
  proof (cases "nl \<in> set (takeWhile isspace (c # cs))")
    case True
    then have sp: "isspace c" by (auto split: if_splits)
    then have m: "re_match whitespace_newline_whitespace (c # cs)
        = Some (Suc (length (takeWhile isspace cs)))"
      using True by (simp only: re_match_whitespace_newline) simp
    have d: "drop (length (takeWhile isspace cs)) cs = dropWhile isspace (c # cs)"
      using sp by (simp add: dropWhile_eq_drop)
    have "re_sub whitespace_newline_whitespace '' '' (c # cs)
        = '' '' @ re_sub whitespace_newline_whitespace '' '' (dropWhile isspace (c # cs))"
      by (simp only: re_sub.simps m option.case nat.case d)
    with 2(1)[OF True] show ?thesis
      by (simp only: re_sub_newlines_match[OF True]) simp
  next
    case False
    then have m: "re_match whitespace_newline_whitespace (c # cs) = None"
      by (simp only: re_match_whitespace_newline if_False)
    have "re_sub whitespace_newline_whitespace '' '' (c # cs)
        = c # re_sub whitespace_newline_whitespace '' '' cs"
      by (simp only: re_sub.simps m option.case)
    with 2(2)[OF False] show ?thesis
      by (simp only: re_sub_newlines_copy[OF False])
  qed
qed

lemma re_match_period_whitespace:
  "re_match period_whitespace s =
     (case s of c # d # cs \<Rightarrow> if c = CHR ''.'' \<and> isspace d then Some 2 else None | _ \<Rightarrow> None)"
  by (cases s rule: search_period_space.cases) auto

lemma re_search_period_whitespace:
  "re_search period_whitespace s = map_option (\<lambda>i. (i, 2)) (search_period_space s)"
proof (induction s rule: search_period_space.induct)
  case 1
  then show ?case by simp
next
  case (2 c)
  then show ?case by simp
next
  case (3 c d cs)
  then show ?case
    by (simp only: re_search.simps re_match_period_whitespace search_period_space.simps)
       (auto simp: option.map_comp comp_def)
qed

lemma re_split1_period_whitespace:
  "re_split1 period_whitespace s = re_split_period_space s"
  by (simp add: re_split1_def re_split_period_space_def re_search_period_whitespace
      split: option.splits)

text \<open>The two functions that use a pattern, with the closed forms in its place.\<close>

lemma normalize_summary_eq:
  "normalize_summary summary =
     (let summary' = re_sub_newlines (strip summary)
      in if \<not> endswith summary' ''.'' then summary' @ ''.'' else summary')"
  by (simp add: normalize_summary_def re_sub_whitespace_newline)

lemma split_summary_and_description_eq:
  "split_summary_and_description contents =
     (let split = split_on nl contents
      in if length split > 1 \<and> strip (split ! 1) = []
         then (split ! 0, join_str [nl] (drop 2 split))
         else
           let split' = re_split_period_space contents
           in if length split' = 2
              then (strip (split' ! 0) @ ''.'', strip (split' ! 1))
              else (strip (split' ! 0), []))"
  unfolding split_summary_and_description_def re_split1_period_whitespace by (rule refl)

section \<open>The collapse of line breaks and the summary\<close>

lemma re_sub_newlines_no_nl: "nl \<notin> set (re_sub_newlines s)"
proof (induction s rule: re_sub_newlines.induct)
  case 1
  then show ?case by simp
next
  case (2 c cs)
  show ?case
  proof (cases "nl \<in> set (takeWhile isspace (c # cs))")
    case True
    with 2 show ?thesis by simp
  next
    case False
    then have "c \<noteq> nl" by (auto simp: isspace_simps split: if_splits)
    with False 2 show ?thesis by simp
  qed
qed

lemma re_sub_newlines_id: "nl \<notin> set s \<Longrightarrow> re_sub_newlines s = s"
proof (induction s)
  case Nil
  then show ?case by simp
next
  case (Cons c cs)
  then have "nl \<notin> set (takeWhile isspace (c # cs))"
    by (meson set_takeWhileD)
  then have "re_sub_newlines (c # cs) = c # re_sub_newlines cs"
    by (rule re_sub_newlines_copy)
  with Cons show ?case by simp
qed

lemma re_sub_newlines_hd:
  "s \<noteq> [] \<Longrightarrow> \<not> isspace (hd s) \<Longrightarrow> re_sub_newlines s \<noteq> [] \<and> hd (re_sub_newlines s) = hd s"
  by (cases s) auto

lemma re_sub_newlines_last:
  "s \<noteq> [] \<Longrightarrow> \<not> isspace (last s) \<Longrightarrow> re_sub_newlines s \<noteq> [] \<and> last (re_sub_newlines s) = last s"
proof (induction s rule: re_sub_newlines.induct)
  case 1
  then show ?case by simp
next
  case (2 c cs)
  show ?case
  proof (cases "nl \<in> set (takeWhile isspace (c # cs))")
    case True
    let ?d = "dropWhile isspace (c # cs)"
    have ne: "?d \<noteq> []"
      using 2(4) by (metis dropWhile_eq_Nil_conv last_in_set list.distinct(1))
    have "c # cs = takeWhile isspace (c # cs) @ ?d" by simp
    then have "last (c # cs) = last ?d" using ne by (metis last_appendR)
    with 2(1)[OF True ne] 2(4) show ?thesis
      unfolding re_sub_newlines_match[OF True] by simp
  next
    case False
    note copy = re_sub_newlines_copy[OF False]
    show ?thesis
    proof (cases cs)
      case Nil
      show ?thesis unfolding copy using Nil by simp
    next
      case (Cons d ds)
      show ?thesis unfolding copy using 2(2)[OF False] 2(4) Cons by simp
    qed
  qed
qed

lemma normalize_summary_cases:
  "normalize_summary s = re_sub_newlines (strip s) @ ''.'' \<and> \<not> endswith (re_sub_newlines (strip s)) ''.''
   \<or> normalize_summary s = re_sub_newlines (strip s) \<and> endswith (re_sub_newlines (strip s)) ''.''"
  by (simp add: normalize_summary_eq Let_def)

lemma normalize_summary_no_nl: "nl \<notin> set (normalize_summary s)"
  using normalize_summary_cases[of s] re_sub_newlines_no_nl[of "strip s"] by auto

lemma normalize_summary_period: "endswith (normalize_summary s) ''.''"
  using normalize_summary_cases[of s] by (auto simp: endswith_single)

lemma normalize_summary_hd: "\<not> isspace (hd (normalize_summary s))"
proof (cases "strip s = []")
  case True
  then show ?thesis by (simp add: normalize_summary_eq endswith_single isspace_simps)
next
  case False
  then have "re_sub_newlines (strip s) \<noteq> [] \<and> hd (re_sub_newlines (strip s)) = hd (strip s)"
    by (simp add: re_sub_newlines_hd strip_hd)
  moreover have "\<not> isspace (hd (strip s))" using False by (rule strip_hd)
  ultimately show ?thesis using normalize_summary_cases[of s] by auto
qed

lemma normalize_summary_fixed:
  assumes "s \<noteq> []" "\<not> isspace (hd s)" "endswith s ''.''" "nl \<notin> set s"
  shows "normalize_summary s = s"
proof -
  have "\<not> isspace (last s)" using assms(3) by (auto simp: endswith_single isspace_simps)
  with assms have "strip s = s" by (simp add: strip_id)
  moreover have "re_sub_newlines s = s" using assms(4) by (rule re_sub_newlines_id)
  ultimately show ?thesis using assms(3) by (simp add: normalize_summary_eq)
qed

lemma normalize_summary_idem: "normalize_summary (normalize_summary s) = normalize_summary s"
proof (rule normalize_summary_fixed)
  show "normalize_summary s \<noteq> []"
    using normalize_summary_period[of s] by (simp add: endswith_single)
  show "\<not> isspace (hd (normalize_summary s))" by (rule normalize_summary_hd)
  show "endswith (normalize_summary s) ''.''" by (rule normalize_summary_period)
  show "nl \<notin> set (normalize_summary s)" by (rule normalize_summary_no_nl)
qed


section \<open>Summary and description\<close>

lemma split_paragraph:
  assumes "1 < length (split_on nl contents)" "strip (split_on nl contents ! 1) = []"
  shows "split_summary_and_description contents
         = (hd (split_on nl contents), join_str [nl] (drop 2 (split_on nl contents)))"
  using assms by (simp add: split_summary_and_description_eq Let_def hd_conv_nth split_on_nonempty)

lemma split_blank_line:
  assumes "nl \<notin> set first" "nl \<notin> set blank" "\<forall>c \<in> set blank. isspace c"
  shows "split_summary_and_description (first @ nl # blank @ nl # rest) = (first, rest)"
proof -
  let ?c = "first @ nl # blank @ nl # rest"
  have s: "split_on nl ?c = first # blank # split_on nl rest"
    using assms by (simp add: split_on_append)
  have "strip blank = []" using assms by (simp add: strip_Nil_iff)
  with s have "split_summary_and_description ?c
        = (hd (split_on nl ?c), join_str [nl] (drop 2 (split_on nl ?c)))"
    by (intro split_paragraph) simp_all
  with s show ?thesis by (simp add: join_split_on)
qed

lemma description_last:
  assumes c: "strip contents = contents"
    and s: "split_summary_and_description contents = (summary, description)"
    and d: "description \<noteq> []"
  shows "\<not> isspace (last description)"
proof (cases "1 < length (split_on nl contents) \<and> strip (split_on nl contents ! 1) = []")
  case True
  then have e: "split_summary_and_description contents
         = (hd (split_on nl contents), join_str [nl] (drop 2 (split_on nl contents)))"
    by (simp add: split_paragraph)
  with s have desc: "description = join_str [nl] (drop 2 (split_on nl contents))" by simp
  from True obtain a b rest where L: "split_on nl contents = a # b # rest"
    by (cases "split_on nl contents" rule: list.exhaust[case_names Nil Cons])
       (auto simp: neq_Nil_conv)
  with desc d have r: "rest \<noteq> []" by auto
  from r obtain r0 rs where rest: "rest = r0 # rs" by (cases rest) auto
  have "contents = join_str [nl] (split_on nl contents)" by (simp add: join_split_on)
  then have "contents = join_str [nl] (a # b # r0 # rs)" using L rest by simp
  with L rest desc have "contents = (a @ nl # b @ [nl]) @ description"
    by simp
  with d have "last contents = last description" by (metis last_appendR)
  moreover have "contents \<noteq> []" using \<open>contents = (a @ nl # b @ [nl]) @ description\<close> by auto
  ultimately show ?thesis using strip_last[of contents] c by simp
next
  case False
  with s d have "description = strip (re_split_period_space contents ! 1)"
    by (auto simp: split_summary_and_description_eq Let_def split: if_splits)
  with d show ?thesis by (metis strip_last)
qed

lemma period_space_at_Cons:
  "period_space_at (c # s) (Suc i) = period_space_at s i"
  by (simp add: period_space_at_def)

lemma period_space_at_0:
  "period_space_at (c # d # s) 0 \<longleftrightarrow> c = CHR ''.'' \<and> isspace d"
  by (simp add: period_space_at_def)

lemma search_period_space_None:
  "search_period_space s = None \<longleftrightarrow> (\<forall>j. \<not> period_space_at s j)"
proof (induction s rule: search_period_space.induct)
  case 1
  then show ?case by (simp add: period_space_at_def)
next
  case (2 c)
  then show ?case by (simp add: period_space_at_def)
next
  case (3 c d cs)
  show ?case
  proof (cases "c = CHR ''.'' \<and> isspace d")
    case True
    then have "period_space_at (c # d # cs) 0" by (simp add: period_space_at_0)
    with True show ?thesis by auto
  next
    case False
    have "(\<forall>j. \<not> period_space_at (c # d # cs) j) \<longleftrightarrow> (\<forall>j. \<not> period_space_at (d # cs) j)"
    proof
      assume a: "\<forall>j. \<not> period_space_at (c # d # cs) j"
      show "\<forall>j. \<not> period_space_at (d # cs) j"
      proof
        fix j
        from a have "\<not> period_space_at (c # d # cs) (Suc j)" by blast
        then show "\<not> period_space_at (d # cs) j" by (simp add: period_space_at_Cons)
      qed
    next
      assume a: "\<forall>j. \<not> period_space_at (d # cs) j"
      show "\<forall>j. \<not> period_space_at (c # d # cs) j"
      proof
        fix j
        show "\<not> period_space_at (c # d # cs) j"
        proof (cases j)
          case 0
          with False show ?thesis by (simp add: period_space_at_0)
        next
          case (Suc k)
          with a show ?thesis by (simp add: period_space_at_Cons)
        qed
      qed
    qed
    moreover have "search_period_space (c # d # cs) = None \<longleftrightarrow> search_period_space (d # cs) = None"
      using False by auto
    ultimately show ?thesis using 3[OF False] by simp
  qed
qed

lemma search_period_space_Some:
  "search_period_space s = Some i \<longleftrightarrow> period_space_at s i \<and> (\<forall>j<i. \<not> period_space_at s j)"
proof (induction s arbitrary: i rule: search_period_space.induct)
  case 1
  then show ?case by (simp add: period_space_at_def)
next
  case (2 c)
  then show ?case by (simp add: period_space_at_def)
next
  case (3 c d cs)
  show ?case
  proof (cases "c = CHR ''.'' \<and> isspace d")
    case True
    then have p0: "period_space_at (c # d # cs) 0" by (simp add: period_space_at_0)
    have "search_period_space (c # d # cs) = Some 0" using True by simp
    moreover have "period_space_at (c # d # cs) i \<and> (\<forall>j<i. \<not> period_space_at (c # d # cs) j) \<longleftrightarrow> i = 0"
      using p0 by (cases i) auto
    ultimately show ?thesis by auto
  next
    case False
    then have n0: "\<not> period_space_at (c # d # cs) 0" by (simp add: period_space_at_0)
    show ?thesis
    proof (cases i)
      case 0
      with False n0 show ?thesis by auto
    next
      case (Suc k)
      have "(\<forall>j<Suc k. \<not> period_space_at (c # d # cs) j) \<longleftrightarrow> (\<forall>j<k. \<not> period_space_at (d # cs) j)"
      proof
        assume a: "\<forall>j<Suc k. \<not> period_space_at (c # d # cs) j"
        show "\<forall>j<k. \<not> period_space_at (d # cs) j"
        proof (intro allI impI)
          fix j assume "j < k"
          with a have "\<not> period_space_at (c # d # cs) (Suc j)" by simp
          then show "\<not> period_space_at (d # cs) j" by (simp add: period_space_at_Cons)
        qed
      next
        assume a: "\<forall>j<k. \<not> period_space_at (d # cs) j"
        show "\<forall>j<Suc k. \<not> period_space_at (c # d # cs) j"
        proof (intro allI impI)
          fix j assume j: "j < Suc k"
          show "\<not> period_space_at (c # d # cs) j"
          proof (cases j)
            case 0
            with n0 show ?thesis by simp
          next
            case (Suc m)
            with a j show ?thesis by (simp add: period_space_at_Cons)
          qed
        qed
      qed
      moreover have "search_period_space (c # d # cs) = Some (Suc k) \<longleftrightarrow> search_period_space (d # cs) = Some k"
        using False by auto
      ultimately show ?thesis
        using 3[OF False, of k] Suc by (simp add: period_space_at_Cons)
    qed
  qed
qed

section \<open>The two shapes of a formatted docstring\<close>

lemma format_docstring_no_description:
  assumes "strip_docstring docstring = Inr contents" "contents \<noteq> []"
    "snd (split_summary_and_description contents) = []"
  shows "format_docstring indentation docstring = Inr (triple_double @ contents @ triple_double)"
  using assms by (auto simp: format_docstring_def split: prod.splits)

lemma format_docstring_description:
  assumes "strip_docstring docstring = Inr contents"
    "split_summary_and_description contents = (summary, description)" "description \<noteq> []"
  shows "format_docstring indentation docstring =
     Inr (triple_double @ normalize_summary summary @ [nl, nl]
          @ join_str [nl] (map (\<lambda>l. rstrip (indent_non_indented l indentation)) (split_on nl description))
          @ [nl, nl] @ indentation @ triple_double)"
proof -
  have "contents \<noteq> []"
  proof
    assume "contents = []"
    then have "split_summary_and_description contents = ([], [])"
      by (simp add: split_summary_and_description_eq re_split_period_space_def strip_def lstrip_def rstrip_def)
    with assms show False by simp
  qed
  with assms show ?thesis by (simp add: format_docstring_def)
qed

lemma indent_line_no_nl:
  assumes "nl \<notin> set indentation" "nl \<notin> set l"
  shows "nl \<notin> set (rstrip (indent_non_indented l indentation))"
proof -
  have "set (indent_non_indented l indentation) \<subseteq> set indentation \<union> set l"
    by (auto simp: indent_non_indented_def)
  with assms set_rstrip[of "indent_non_indented l indentation"] show ?thesis by blast
qed


lemma reindent_keeps_nonblank:
  assumes "m \<noteq> []" "\<not> isspace (last m)" "indentation = [] \<or> isspace (hd m)"
  shows "rstrip (indent_non_indented m indentation) = m"
proof -
  have "indent_non_indented m indentation = m"
    using assms(1,3) by (auto simp: indent_non_indented_def lstrip_eq_iff)
  with assms(1,2) show ?thesis by (simp add: rstrip_id)
qed

lemma reindent_idempotent:
  assumes ws: "\<forall>c \<in> set indentation. isspace c"
  shows "rstrip (indent_non_indented (rstrip (indent_non_indented l indentation)) indentation)
         = rstrip (indent_non_indented l indentation)"
proof -
  let ?m = "rstrip (indent_non_indented l indentation)"
  have blank: "rstrip (indent_non_indented [] indentation) = []"
    using ws by (simp add: indent_non_indented_def lstrip_def rstrip_Nil_iff)
  show ?thesis
  proof (cases "?m = []")
    case True
    with blank show ?thesis by simp
  next
    case False
    then have last: "\<not> isspace (last ?m)" by (rule rstrip_last)
    have "indentation = [] \<or> isspace (hd ?m)"
    proof (cases "indentation = []")
      case True
      then show ?thesis by simp
    next
      case ne: False
      have "isspace (hd (indent_non_indented l indentation))"
      proof (cases "lstrip l = l")
        case True
        then have "indent_non_indented l indentation = indentation @ l"
          by (simp add: indent_non_indented_def)
        with ne ws show ?thesis by simp
      next
        case False
        then have "l \<noteq> [] \<and> isspace (hd l)" by (simp add: lstrip_eq_iff)
        with False show ?thesis by (simp add: indent_non_indented_def)
      qed
      with False show ?thesis by (simp add: rstrip_hd)
    qed
    with False last show ?thesis by (rule reindent_keeps_nonblank)
  qed
qed

lemma reindented_description_last:
  assumes d: "description \<noteq> []" "\<not> isspace (last description)"
  shows "join_str [nl] (map (\<lambda>l. rstrip (indent_non_indented l indentation)) (split_on nl description)) \<noteq> []
       \<and> \<not> isspace (last (join_str [nl]
             (map (\<lambda>l. rstrip (indent_non_indented l indentation)) (split_on nl description))))"
proof -
  let ?f = "\<lambda>l. rstrip (indent_non_indented l indentation)"
  let ?L = "split_on nl description"
  have "last description \<noteq> nl" using d(2) isspace_simps(1) by auto
  with d(1) have l: "last ?L \<noteq> [] \<and> last (last ?L) = last description"
    by (rule split_on_last)
  have ne: "?L \<noteq> []" by (rule split_on_nonempty)
  have il: "indent_non_indented (last ?L) indentation \<noteq> []
        \<and> last (indent_non_indented (last ?L) indentation) = last (last ?L)"
    using l by (simp add: indent_non_indented_def)
  then have "?f (last ?L) = indent_non_indented (last ?L) indentation"
    using l d(2) by (intro rstrip_id) simp
  with il l d(2) have fl: "?f (last ?L) \<noteq> [] \<and> \<not> isspace (last (?f (last ?L)))" by simp
  have "last (map ?f ?L) = ?f (last ?L)" using ne by (simp add: last_map)
  with fl have "map ?f ?L \<noteq> [] \<and> last (map ?f ?L) \<noteq> []" using ne by simp
  then have "join_str [nl] (map ?f ?L) \<noteq> []
      \<and> last (join_str [nl] (map ?f ?L)) = last (last (map ?f ?L))"
    by (intro join_str_last) simp_all
  with fl \<open>last (map ?f ?L) = ?f (last ?L)\<close> show ?thesis by simp
qed

text \<open>The definitions that a concrete evaluation unfolds.\<close>

lemmas eval_defs = format_docstring_def strip_docstring_def startswith_def endswith_def
  lstrip_def rstrip_def strip_def isspace_def getitem_def split1_def rsplit1_def
  split_summary_and_description_eq re_split_period_space_def normalize_summary_eq
  indent_non_indented_def Let_def suffix_def

lemmas loop_defs = format_code_def tokenizer_of_def initial_state_def format_token_def
  starts_with_triple_def eval_nat_numeral

section \<open>The loop without a docstring\<close>

lemma format_tokens_no_candidate:
  "no_candidate (previous_token_type st) toks \<Longrightarrow>
   \<exists>st'. format_tokens st toks = Inr st'
     \<and> formatted st' = formatted st @ spaced_text (last_row st) (last_column st) toks"
proof (induction toks arbitrary: st)
  case Nil
  then show ?case by simp
next
  case (Cons tok toks)
  let ?col = "if start_row tok > last_row st then 0 else last_column st"
  let ?st = "\<lparr>formatted = formatted st @ gap (last_row st) (last_column st) tok @ token_string tok,
               previous_token_string = token_string tok,
               previous_token_type = Some (token_type tok),
               last_row = end_row tok, last_column = end_column tok\<rparr>"
  from Cons.prems have c: "\<not> (token_type tok = STRING \<and> starts_with_triple (token_string tok)
          \<and> previous_token_type st = Some INDENT)"
    and rest: "no_candidate (Some (token_type tok)) toks" by simp_all
  have g: "(if start_column tok > ?col
            then formatted st @ replicate (nat (start_column tok - ?col)) (CHR '' '')
            else formatted st) = formatted st @ gap (last_row st) (last_column st) tok"
    by (simp add: gap_def)
  have step: "format_token st tok = Inr ?st"
    unfolding format_token_def Let_def g using c by auto
  from rest have "no_candidate (previous_token_type ?st) toks" by simp
  from Cons.IH[OF this] obtain st' where
    "format_tokens ?st toks = Inr st'"
    "formatted st' = formatted ?st @ spaced_text (last_row ?st) (last_column ?st) toks"
    by blast
  with step show ?case by simp
qed

section \<open>The second pass\<close>

lemma format_docstring_idem:
  "(\<forall>c \<in> set indentation. isspace c) \<and> nl \<notin> set indentation
     \<and> format_docstring indentation docstring = Inr out \<and> out \<noteq> [] \<longrightarrow>
   format_docstring indentation out = Inr out"
proof
  assume a: "(\<forall>c \<in> set indentation. isspace c) \<and> nl \<notin> set indentation
     \<and> format_docstring indentation docstring = Inr out \<and> out \<noteq> []"
  then have ws: "\<forall>c \<in> set indentation. isspace c" and nonl: "nl \<notin> set indentation"
    and fd: "format_docstring indentation docstring = Inr out" and one: "out \<noteq> []"
    by simp_all
  from fd obtain contents where sd: "strip_docstring docstring = Inr contents"
    by (auto simp: format_docstring_def split: sum.splits)
  with fd one have cne: "contents \<noteq> []" by (auto simp: format_docstring_def)
  have cs: "strip contents = contents" using sd by (rule strip_docstring_contents_stripped)
  obtain summary description where
    sp: "split_summary_and_description contents = (summary, description)"
    by (cases "split_summary_and_description contents") auto
  let ?f = "\<lambda>l. rstrip (indent_non_indented l indentation)"
  show "format_docstring indentation out = Inr out"
  proof (cases "description = []")
    case True
    with sd cne sp fd have out: "out = triple_double @ contents @ triple_double"
      by (simp add: format_docstring_def)
    have "strip_docstring out = Inr contents"
      unfolding out using strip_docstring_wrapped[of contents] cs by simp
    with cne sp True show ?thesis
      unfolding out by (simp add: format_docstring_def)
  next
    case False
    let ?S = "normalize_summary summary"
    let ?L = "split_on nl description"
    let ?J = "join_str [nl] (map ?f ?L)"
    from sd sp False have "format_docstring indentation docstring
        = Inr (triple_double @ ?S @ [nl, nl] @ ?J @ [nl, nl] @ indentation @ triple_double)"
      by (rule format_docstring_description)
    with fd have out: "out = triple_double @ (?S @ [nl, nl] @ ?J @ [nl, nl] @ indentation) @ triple_double"
      by simp
    have dl: "\<not> isspace (last description)" using cs sp False by (rule description_last)
    with False have J: "?J \<noteq> [] \<and> \<not> isspace (last ?J)" by (rule reindented_description_last)
    have Sne: "?S \<noteq> []" using normalize_summary_period[of summary] by (simp add: endswith_single)
    have Shd: "\<not> isspace (hd ?S)" by (rule normalize_summary_hd)
    let ?c2 = "?S @ [nl, nl] @ ?J"
    have "rstrip (?c2 @ ([nl, nl] @ indentation)) = rstrip ?c2"
      using ws by (intro rstrip_append_ws) (simp add: isspace_simps)
    also have "rstrip ?c2 = ?c2" using J by (intro rstrip_id) simp
    finally have "strip (?S @ [nl, nl] @ ?J @ [nl, nl] @ indentation) = lstrip ?c2"
      by (simp add: strip_def)
    also have "lstrip ?c2 = ?c2" using Sne Shd by (intro lstrip_id) simp
    finally have st: "strip (?S @ [nl, nl] @ ?J @ [nl, nl] @ indentation) = ?c2" .
    have sd2: "strip_docstring out = Inr ?c2"
      unfolding out using strip_docstring_wrapped[of "?S @ [nl, nl] @ ?J @ [nl, nl] @ indentation"] st
      by simp
    have "split_summary_and_description (?S @ nl # [] @ nl # ?J) = (?S, ?J)"
      using normalize_summary_no_nl[of summary] split_blank_line[of ?S "[]" ?J]
      by simp
    then have sp2: "split_summary_and_description ?c2 = (?S, ?J)" by simp
    have Jne: "?J \<noteq> []" using J by simp
    from sd2 sp2 Jne have f2: "format_docstring indentation out
        = Inr (triple_double @ normalize_summary ?S @ [nl, nl]
               @ join_str [nl] (map ?f (split_on nl ?J)) @ [nl, nl] @ indentation @ triple_double)"
      by (rule format_docstring_description)
    have "\<forall>x \<in> set (map ?f ?L). nl \<notin> set x"
    proof
      fix x
      assume "x \<in> set (map ?f ?L)"
      then obtain l where l: "l \<in> set ?L" and x: "x = ?f l" by auto
      from l have "nl \<notin> set l" by (rule split_on_no_sep)
      with nonl show "nl \<notin> set x" unfolding x by (rule indent_line_no_nl)
    qed
    then have "split_on nl ?J = map ?f ?L"
      by (intro split_on_join) (simp_all add: split_on_nonempty)
    moreover have "map ?f (map ?f ?L) = map ?f ?L"
      by (rule map_idI) (auto simp: reindent_idempotent[OF ws])
    ultimately have "join_str [nl] (map ?f (split_on nl ?J)) = ?J" by (simp only:)
    with f2 show ?thesis unfolding out by (simp add: normalize_summary_idem)
  qed
qed

lemma format_docstring_fixed:
  assumes "\<forall>c \<in> set indentation. isspace c" "nl \<notin> set indentation"
    "format_docstring indentation docstring = Inr out" "out \<noteq> []"
  shows "format_docstring indentation out = Inr out"
  using assms format_docstring_idem by blast

lemma format_token_gap:
  "format_token st tok =
     (if token_type tok = STRING \<and> starts_with_triple (token_string tok)
         \<and> previous_token_type st = Some INDENT
      then (case format_docstring (previous_token_string st) (token_string tok) of
              Inl e \<Rightarrow> Inl e
            | Inr text \<Rightarrow>
                Inr \<lparr>formatted = formatted st @ gap (last_row st) (last_column st) tok @ text,
                     previous_token_string = token_string tok,
                     previous_token_type = Some (token_type tok),
                     last_row = end_row tok, last_column = end_column tok\<rparr>)
      else Inr \<lparr>formatted = formatted st @ gap (last_row st) (last_column st) tok @ token_string tok,
                previous_token_string = token_string tok,
                previous_token_type = Some (token_type tok),
                last_row = end_row tok, last_column = end_column tok\<rparr>)"
proof -
  let ?col = "if start_row tok > last_row st then 0 else last_column st"
  have g: "(if start_column tok > ?col
            then formatted st @ replicate (nat (start_column tok - ?col)) (CHR '' '')
            else formatted st) = formatted st @ gap (last_row st) (last_column st) tok"
    by (simp add: gap_def)
  show ?thesis
    unfolding format_token_def Let_def g by (simp split: sum.splits)
qed

lemma format_token_read_back:
  assumes step: "format_token st tok = Inr st1"
    and ty: "token_type tok' = token_type tok"
    and g: "gap (last_row st') (last_column st') tok' = gap (last_row st) (last_column st) tok"
    and cond: "if token_type tok = STRING \<and> starts_with_triple (token_string tok)
                 \<and> previous_token_type st = Some INDENT
              then format_docstring (previous_token_string st) (token_string tok) = Inr (token_string tok')
                   \<and> token_string tok' \<noteq> []
                   \<and> list_all isspace (previous_token_string st) \<and> nl \<notin> set (previous_token_string st)
              else token_string tok' = token_string tok"
    and f: "formatted st' = formatted st"
    and pt: "previous_token_type st' = previous_token_type st"
    and ps: "previous_token_type st = Some INDENT \<longrightarrow> previous_token_string st' = previous_token_string st"
  shows "\<exists>st1'. format_token st' tok' = Inr st1'
           \<and> formatted st1' = formatted st1
           \<and> previous_token_type st1' = previous_token_type st1
           \<and> (previous_token_type st1 = Some INDENT \<longrightarrow> previous_token_string st1' = previous_token_string st1)
           \<and> last_row st1' = end_row tok' \<and> last_column st1' = end_column tok'
           \<and> last_row st1 = end_row tok \<and> last_column st1 = end_column tok
           \<and> previous_token_string st1 = token_string tok"
proof (cases "token_type tok = STRING \<and> starts_with_triple (token_string tok)
                 \<and> previous_token_type st = Some INDENT")
  case True
  with cond have fd: "format_docstring (previous_token_string st) (token_string tok) = Inr (token_string tok')"
    and ne: "token_string tok' \<noteq> []"
    and ws: "\<forall>c \<in> set (previous_token_string st). isspace c" and nonl: "nl \<notin> set (previous_token_string st)"
    by (simp_all add: list_all_iff)
  from True ps have same: "previous_token_string st' = previous_token_string st" by simp
  have again: "format_docstring (previous_token_string st) (token_string tok') = Inr (token_string tok')"
    using ws nonl fd ne by (rule format_docstring_fixed)
  have s1: "st1 = \<lparr>formatted = formatted st @ gap (last_row st) (last_column st) tok @ token_string tok',
                   previous_token_string = token_string tok,
                   previous_token_type = Some (token_type tok),
                   last_row = end_row tok, last_column = end_column tok\<rparr>"
    using step True fd by (simp add: format_token_gap)
  have "format_token st' tok'
        = Inr \<lparr>formatted = formatted st' @ gap (last_row st') (last_column st') tok' @ token_string tok',
               previous_token_string = token_string tok',
               previous_token_type = Some (token_type tok'),
               last_row = end_row tok', last_column = end_column tok'\<rparr>"
    using again same by (simp add: format_token_gap)
  with s1 f g ty True show ?thesis by simp
next
  case False
  with cond have same: "token_string tok' = token_string tok" by simp
  have s1: "st1 = \<lparr>formatted = formatted st @ gap (last_row st) (last_column st) tok @ token_string tok,
                   previous_token_string = token_string tok,
                   previous_token_type = Some (token_type tok),
                   last_row = end_row tok, last_column = end_column tok\<rparr>"
    using step False by (simp add: format_token_gap)
  have nc: "\<not> (token_type tok' = STRING \<and> starts_with_triple (token_string tok')
                 \<and> previous_token_type st' = Some INDENT)"
    using False ty same pt by simp
  have "format_token st' tok'
        = Inr \<lparr>formatted = formatted st' @ gap (last_row st') (last_column st') tok' @ token_string tok',
               previous_token_string = token_string tok',
               previous_token_type = Some (token_type tok'),
               last_row = end_row tok', last_column = end_column tok'\<rparr>"
    by (simp only: format_token_gap nc if_False)
  with s1 f g ty same show ?thesis by simp
qed

lemma format_tokens_read_back:
  "read_back (last_row st) (last_column st) (last_row st') (last_column st')
     (previous_token_type st) (previous_token_string st) toks toks' \<Longrightarrow>
   formatted st' = formatted st \<Longrightarrow>
   previous_token_type st' = previous_token_type st \<Longrightarrow>
   (previous_token_type st = Some INDENT \<longrightarrow> previous_token_string st' = previous_token_string st) \<Longrightarrow>
   format_tokens st toks = Inr fin \<Longrightarrow>
   \<exists>fin'. format_tokens st' toks' = Inr fin' \<and> formatted fin' = formatted fin"
proof (induction toks arbitrary: toks' st st')
  case Nil
  then show ?case by (cases toks') simp_all
next
  case (Cons tok toks)
  from Cons.prems(1) obtain tok' rest' where t': "toks' = tok' # rest'"
    by (cases toks') simp_all
  from Cons.prems(5) obtain st1 where step: "format_token st tok = Inr st1"
    and rest: "format_tokens st1 toks = Inr fin"
    by (auto split: sum.splits)
  from Cons.prems(1) t' have ty: "token_type tok' = token_type tok"
    and g: "gap (last_row st') (last_column st') tok' = gap (last_row st) (last_column st) tok"
    and cond: "if token_type tok = STRING \<and> starts_with_triple (token_string tok)
                 \<and> previous_token_type st = Some INDENT
              then format_docstring (previous_token_string st) (token_string tok) = Inr (token_string tok')
                   \<and> token_string tok' \<noteq> []
                   \<and> list_all isspace (previous_token_string st) \<and> nl \<notin> set (previous_token_string st)
              else token_string tok' = token_string tok"
    and rb: "read_back (end_row tok) (end_column tok) (end_row tok') (end_column tok')
            (Some (token_type tok)) (token_string tok) toks rest'"
    by simp_all
  from format_token_read_back[OF step ty g cond Cons.prems(2) Cons.prems(3) Cons.prems(4)]
  obtain st1' where step': "format_token st' tok' = Inr st1'"
    and f1: "formatted st1' = formatted st1"
    and pt1: "previous_token_type st1' = previous_token_type st1"
    and ps1: "previous_token_type st1 = Some INDENT \<longrightarrow> previous_token_string st1' = previous_token_string st1"
    and pos': "last_row st1' = end_row tok'" "last_column st1' = end_column tok'"
    and pos: "last_row st1 = end_row tok" "last_column st1 = end_column tok"
    and str: "previous_token_string st1 = token_string tok"
    by blast
  have ptv: "previous_token_type st1 = Some (token_type tok)"
    using step by (auto simp: format_token_gap split: if_splits sum.splits)
  have rb1: "read_back (last_row st1) (last_column st1) (last_row st1') (last_column st1')
     (previous_token_type st1) (previous_token_string st1) toks rest'"
    using rb pos pos' str ptv by simp
  from Cons.IH[OF rb1 f1 pt1 ps1 rest] obtain fin' where
    "format_tokens st1' rest' = Inr fin'" "formatted fin' = formatted fin" by blast
  with step' t' show ?case by simp
qed

section \<open>Claims about the reassembly loop\<close>

text \<open>
  C1. The loop replaces a string token behind an indentation token only when
  \<open>starts_with_triple\<close> holds, and that function tests for three double quotes or for
  FOUR single quotes. A docstring between triple single quotes is therefore not a candidate:
  for the program below \<open>format_code\<close> returns the source as it is, while
  \<open>format_docstring\<close> applied to the token would have rewritten it.
\<close>

theorem format_code_triple_single_raw:
  "\<not> starts_with_triple (triple_single @ ''a. b'' @ triple_single)
   \<and> format_code (tokenizer_of [(source_single_quoted, tokens_single_quoted)]) source_single_quoted
       = Inr source_single_quoted
   \<and> format_docstring ''    '' (triple_single @ ''a. b'' @ triple_single)
       = Inr (triple_double @ ''a.'' @ [nl, nl] @ ''    b'' @ [nl, nl] @ ''    '' @ triple_double)"
  by (simp add: loop_defs tokens_single_quoted_def source_single_quoted_def eval_defs)

text \<open>
  C2. When no token of the stream is a docstring candidate and the tokenizer does not fail,
  \<open>format_code\<close> returns the texts of the tokens in order, each behind the run of spaces
  that fills the gap to the cursor. Whatever stood between two tokens in the source is
  written back as spaces.
\<close>

theorem format_code_without_candidate:
  "generate_tokens source = (toks, None) \<and> no_candidate None toks \<longrightarrow>
   format_code generate_tokens source = Inr (spaced_text 0 (- 1) toks)"
proof
  assume a: "generate_tokens source = (toks, None) \<and> no_candidate None toks"
  then have "no_candidate (previous_token_type initial_state) toks"
    by (simp add: initial_state_def)
  from format_tokens_no_candidate[OF this] obtain st' where
    "format_tokens initial_state toks = Inr st'"
    "formatted st' = formatted initial_state
        @ spaced_text (last_row initial_state) (last_column initial_state) toks"
    by blast
  with a show "format_code generate_tokens source = Inr (spaced_text 0 (- 1) toks)"
    by (simp add: format_code_def initial_state_def)
qed

theorem format_code_without_candidate_witness:
  "tokenizer_of [(source_spaces, tokens_assignment)] source_spaces = (tokens_assignment, None)
   \<and> no_candidate None tokens_assignment
   \<and> spaced_text 0 (- 1) tokens_assignment = source_spaces
   \<and> format_code (tokenizer_of [(source_spaces, tokens_assignment)]) source_spaces
       = Inr source_spaces"
proof -
  have t: "tokenizer_of [(source_spaces, tokens_assignment)] source_spaces = (tokens_assignment, None)"
    by (simp add: tokenizer_of_def)
  have n: "no_candidate None tokens_assignment"
    by (simp add: tokens_assignment_def)
  have s: "spaced_text 0 (- 1) tokens_assignment = source_spaces"
    by (simp add: tokens_assignment_def source_spaces_def gap_def eval_nat_numeral)
  from t n s format_code_without_candidate
    [where generate_tokens = "tokenizer_of [(source_spaces, tokens_assignment)]"
       and source = source_spaces and toks = tokens_assignment]
  show ?thesis by simp
qed

text \<open>
  C2, the claim as stated, fails: the source \<open>x<TAB>=<TAB>1\<close> holds no string at all, and
  \<open>format_code\<close> returns \<open>x = 1\<close> with spaces in place of the tabs.
\<close>

theorem format_code_tabs_become_spaces:
  "no_candidate None tokens_assignment
   \<and> format_code (tokenizer_of [(source_tabs, tokens_assignment)]) source_tabs
       = Inr (''x = 1'' @ [nl])
   \<and> format_code (tokenizer_of [(source_tabs, tokens_assignment)]) source_tabs
       \<noteq> Inr source_tabs"
  by (simp add: loop_defs tokens_assignment_def source_tabs_def)

text \<open>
  C3. A second pass of \<open>format_code\<close> returns the result of the first pass when the
  tokenizer reads that result back as the tokens of the source (the relation
  \<open>read_back\<close>: same types, same gaps, the copied texts unchanged and every docstring
  candidate carrying its formatted, non-empty text behind an indentation of whitespace).
  The reason is the second part: \<open>format_docstring\<close> returns each of its non-empty
  results unchanged when it is given the same indentation again.
\<close>

theorem format_code_second_pass:
  "(generate_tokens source = (toks, None)
      \<and> format_code generate_tokens source = Inr out
      \<and> generate_tokens out = (toks', None)
      \<and> read_back 0 (- 1) 0 (- 1) None [] toks toks' \<longrightarrow>
        format_code generate_tokens out = Inr out)
   \<and> (list_all isspace indentation \<and> nl \<notin> set indentation
        \<and> format_docstring indentation docstring = Inr result \<and> result \<noteq> [] \<longrightarrow>
        format_docstring indentation result = Inr result)"
proof (intro conjI impI)
  assume a: "generate_tokens source = (toks, None)
      \<and> format_code generate_tokens source = Inr out
      \<and> generate_tokens out = (toks', None)
      \<and> read_back 0 (- 1) 0 (- 1) None [] toks toks'"
  then obtain fin where fin: "format_tokens initial_state toks = Inr fin" and out: "formatted fin = out"
    by (auto simp: format_code_def split: sum.splits)
  have "read_back (last_row initial_state) (last_column initial_state)
          (last_row initial_state) (last_column initial_state)
          (previous_token_type initial_state) (previous_token_string initial_state) toks toks'"
    using a by (simp add: initial_state_def)
  from format_tokens_read_back[OF this _ _ _ fin] obtain fin' where
    "format_tokens initial_state toks' = Inr fin'" "formatted fin' = formatted fin"
    by blast
  with a out show "format_code generate_tokens out = Inr out"
    by (simp add: format_code_def)
next
  assume "list_all isspace indentation \<and> nl \<notin> set indentation
        \<and> format_docstring indentation docstring = Inr result \<and> result \<noteq> []"
  then show "format_docstring indentation result = Inr result"
    by (intro format_docstring_fixed[of indentation docstring result]) (simp_all add: list_all_iff)
qed

theorem format_code_second_pass_witness:
  "tokenizer_of [(source_docstring, tokens_docstring),
                 (source_docstring_formatted, tokens_docstring_formatted)] source_docstring
     = (tokens_docstring, None)
   \<and> format_code (tokenizer_of [(source_docstring, tokens_docstring),
                   (source_docstring_formatted, tokens_docstring_formatted)]) source_docstring
     = Inr source_docstring_formatted
   \<and> tokenizer_of [(source_docstring, tokens_docstring),
                   (source_docstring_formatted, tokens_docstring_formatted)] source_docstring_formatted
     = (tokens_docstring_formatted, None)
   \<and> read_back 0 (- 1) 0 (- 1) None [] tokens_docstring tokens_docstring_formatted
   \<and> format_code (tokenizer_of [(source_docstring, tokens_docstring),
                   (source_docstring_formatted, tokens_docstring_formatted)]) source_docstring_formatted
     = Inr source_docstring_formatted
   \<and> list_all isspace ''    ''
   \<and> format_docstring ''    '' (triple_double @ ''a. b'' @ triple_double)
       = Inr (triple_double @ ''a.'' @ [nl, nl] @ ''    b'' @ [nl, nl] @ ''    '' @ triple_double)
   \<and> format_docstring ''    ''
         (triple_double @ ''a.'' @ [nl, nl] @ ''    b'' @ [nl, nl] @ ''    '' @ triple_double)
       = Inr (triple_double @ ''a.'' @ [nl, nl] @ ''    b'' @ [nl, nl] @ ''    '' @ triple_double)"
proof -
  let ?T = "tokenizer_of [(source_docstring, tokens_docstring),
                   (source_docstring_formatted, tokens_docstring_formatted)]"
  have t1: "?T source_docstring = (tokens_docstring, None)"
    by (simp add: tokenizer_of_def)
  have ne: "source_docstring_formatted \<noteq> source_docstring"
    by (simp add: source_docstring_def source_docstring_formatted_def)
  then have t2: "?T source_docstring_formatted = (tokens_docstring_formatted, None)"
    by (simp add: tokenizer_of_def)
  have f1: "format_code ?T source_docstring = Inr source_docstring_formatted"
    unfolding format_code_def t1
    by (simp add: tokens_docstring_def source_docstring_formatted_def initial_state_def
        format_token_def starts_with_triple_def eval_nat_numeral eval_defs)
  have fd: "format_docstring ''    '' (triple_double @ ''a. b'' @ triple_double)
       = Inr (triple_double @ ''a.'' @ [nl, nl] @ ''    b'' @ [nl, nl] @ ''    '' @ triple_double)"
    by (simp add: eval_defs)
  have rb: "read_back 0 (- 1) 0 (- 1) None [] tokens_docstring tokens_docstring_formatted"
    using fd
    by (simp add: tokens_docstring_def tokens_docstring_formatted_def gap_def
        starts_with_triple_def startswith_def strip_def lstrip_def rstrip_def isspace_def)
  have w: "list_all isspace ''    ''" by (simp add: isspace_def)
  note inst = format_code_second_pass
    [where generate_tokens = ?T and source = source_docstring and toks = tokens_docstring
       and out = source_docstring_formatted and toks' = tokens_docstring_formatted
       and indentation = "''    ''" and docstring = "triple_double @ ''a. b'' @ triple_double"
       and result = "triple_double @ ''a.'' @ [nl, nl] @ ''    b'' @ [nl, nl] @ ''    '' @ triple_double"]
  from t1 f1 t2 rb w fd inst show ?thesis by simp
qed

text \<open>
  C3, the claim as stated, fails: \<open>format_code\<close> is not idempotent. The empty docstring
  of the program \<open>source_two_strings\<close> collapses to nothing, which leaves a blank line; the
  result is not read back as the tokens of the source, the second string is now the first
  token behind the indentation, and the second pass rewrites it.
\<close>

theorem format_code_second_pass_differs:
  "format_code (tokenizer_of [(source_two_strings, tokens_two_strings),
                              (source_first_pass, tokens_first_pass)]) source_two_strings
     = Inr source_first_pass
   \<and> format_code (tokenizer_of [(source_two_strings, tokens_two_strings),
                                (source_first_pass, tokens_first_pass)]) source_first_pass
     = Inr source_second_pass
   \<and> source_second_pass \<noteq> source_first_pass
   \<and> format_docstring ''    '' (triple_double @ '' '' @ triple_double) = Inr []
   \<and> \<not> read_back 0 (- 1) 0 (- 1) None [] tokens_two_strings tokens_first_pass"
  by (simp add: loop_defs tokens_two_strings_def tokens_first_pass_def source_two_strings_def
      source_first_pass_def source_second_pass_def eval_defs)

section \<open>Claims about the docstring formatter\<close>




text \<open>
  C5. \<open>split_summary_and_description\<close>: when the second line is blank the summary is the
  first line and the description is the text behind the blank line. Otherwise the contents
  are cut at the first period that is directly followed by a whitespace character of any
  kind (a space, a tab, a line feed): the summary is the trimmed text before it with the
  period put back, the description the trimmed text behind the whitespace character.
  Without such a period the summary is the trimmed contents and the description is empty.
\<close>

theorem split_summary_and_description_cases:
  "(second_line_blank contents \<longrightarrow>
      split_summary_and_description contents
        = (hd (split_on nl contents), join_str [nl] (drop 2 (split_on nl contents))))
   \<and> (nl \<notin> set first \<and> nl \<notin> set blank \<and> (\<forall>c \<in> set blank. isspace c) \<longrightarrow>
        split_summary_and_description (first @ nl # blank @ nl # rest) = (first, rest))
   \<and> (\<not> second_line_blank contents \<and> period_space_at contents i
        \<and> (\<forall>j<i. \<not> period_space_at contents j) \<longrightarrow>
        split_summary_and_description contents
          = (strip (take i contents) @ ''.'', strip (drop (i + 2) contents)))
   \<and> (\<not> second_line_blank contents \<and> (\<forall>j. \<not> period_space_at contents j) \<longrightarrow>
        split_summary_and_description contents = (strip contents, []))"
proof (intro conjI impI)
  assume "second_line_blank contents"
  then show "split_summary_and_description contents
        = (hd (split_on nl contents), join_str [nl] (drop 2 (split_on nl contents)))"
    by (simp add: second_line_blank_def split_paragraph)
next
  assume a: "nl \<notin> set first \<and> nl \<notin> set blank \<and> (\<forall>c \<in> set blank. isspace c)"
  then show "split_summary_and_description (first @ nl # blank @ nl # rest) = (first, rest)"
    by (intro split_blank_line) simp_all
next
  assume a: "\<not> second_line_blank contents \<and> period_space_at contents i
        \<and> (\<forall>j<i. \<not> period_space_at contents j)"
  then have "search_period_space contents = Some i" by (simp add: search_period_space_Some)
  with a show "split_summary_and_description contents
          = (strip (take i contents) @ ''.'', strip (drop (i + 2) contents))"
    by (auto simp: split_summary_and_description_eq second_line_blank_def
        re_split_period_space_def Let_def)
next
  assume a: "\<not> second_line_blank contents \<and> (\<forall>j. \<not> period_space_at contents j)"
  then have "search_period_space contents = None" by (simp add: search_period_space_None)
  with a show "split_summary_and_description contents = (strip contents, [])"
    by (auto simp: split_summary_and_description_eq second_line_blank_def
        re_split_period_space_def Let_def)
qed

theorem split_summary_and_description_cases_witness:
  "second_line_blank (''Return x.'' @ [nl, nl] @ ''More info here.'')
   \<and> split_summary_and_description (''Return x.'' @ [nl, nl] @ ''More info here.'')
       = (''Return x.'', ''More info here.'')
   \<and> \<not> second_line_blank ''does a thing. returns nothing''
   \<and> period_space_at ''does a thing. returns nothing'' 12
   \<and> split_summary_and_description ''does a thing. returns nothing''
       = (''does a thing.'', ''returns nothing'')
   \<and> \<not> second_line_blank ''Just this.''
   \<and> split_summary_and_description ''Just this.'' = (''Just this.'', [])"
proof -
  have b1: "second_line_blank (''Return x.'' @ [nl, nl] @ ''More info here.'')"
    by (simp add: second_line_blank_def lstrip_def rstrip_def strip_def)
  have b2: "\<not> second_line_blank ''does a thing. returns nothing''"
    by (simp add: second_line_blank_def)
  have p2: "period_space_at ''does a thing. returns nothing'' 12"
    by (simp add: period_space_at_def isspace_def)
  have f2: "\<forall>j<12. \<not> period_space_at ''does a thing. returns nothing'' j"
    using search_period_space_Some[of "''does a thing. returns nothing''" 12]
    by (simp add: isspace_def)
  have b3: "\<not> second_line_blank ''Just this.''"
    by (simp add: second_line_blank_def)
  have n3: "\<forall>j. \<not> period_space_at ''Just this.'' j"
    using search_period_space_None[of "''Just this.''"] by (simp add: isspace_def)
  have e1: "split_summary_and_description (''Return x.'' @ [nl, nl] @ ''More info here.'')
       = (''Return x.'', ''More info here.'')"
    using b1 split_summary_and_description_cases
      [where contents = "''Return x.'' @ [nl, nl] @ ''More info here.''"]
    by simp
  have e2: "split_summary_and_description ''does a thing. returns nothing''
       = (''does a thing.'', ''returns nothing'')"
    using b2 p2 f2 split_summary_and_description_cases
      [where contents = "''does a thing. returns nothing''" and i = 12]
    by (simp add: lstrip_def rstrip_def strip_def isspace_def)
  have e3: "split_summary_and_description ''Just this.'' = (''Just this.'', [])"
    using b3 n3 split_summary_and_description_cases [where contents = "''Just this.''"]
    by (simp add: lstrip_def rstrip_def strip_def isspace_def)
  from b1 e1 b2 p2 e2 b3 e3 show ?thesis by blast
qed

text \<open>
  C5, the claim as stated, fails: it cuts only at a period followed by a space character.
  The contents \<open>a.<TAB>b\<close> are one line and hold no period followed by a space, yet they
  are cut into the summary \<open>a.\<close> and the description \<open>b\<close>.
\<close>

theorem split_on_period_tab:
  "split_on nl (''a.'' @ [CHR 0x09] @ ''b'') = [''a.'' @ [CHR 0x09] @ ''b'']
   \<and> find_sub ''. '' (''a.'' @ [CHR 0x09] @ ''b'') = None
   \<and> split_summary_and_description (''a.'' @ [CHR 0x09] @ ''b'') = (''a.'', ''b'')
   \<and> split_summary_and_description (''a.'' @ [CHR 0x09] @ ''b'') \<noteq> (''a.'' @ [CHR 0x09] @ ''b'', [])"
  by (simp add: split_summary_and_description_eq re_split_period_space_def Let_def
      lstrip_def rstrip_def strip_def isspace_def)

text \<open>
  C6. The assertion of \<open>strip_docstring\<close> guards one direction only. A docstring that
  opens with three single quotes and does not close with them raises the assertion failure,
  and \<open>format_docstring\<close> passes it on. A docstring that does not open with three single
  quotes never raises it. With matching delimiters the result is the text between the first
  opening and the last closing delimiter, trimmed.
\<close>

theorem strip_docstring_delimiters:
  "(startswith (lstrip docstring) triple_single \<and> \<not> endswith (rstrip docstring) triple_single \<longrightarrow>
      strip_docstring docstring = Inl AssertionError
      \<and> format_docstring indentation docstring = Inl AssertionError)
   \<and> (\<not> startswith (lstrip docstring) triple_single \<longrightarrow>
        strip_docstring docstring \<noteq> Inl AssertionError)
   \<and> ((\<forall>c \<in> set ws. isspace c) \<and> (\<forall>c \<in> set ws'. isspace c) \<longrightarrow>
        strip_docstring (ws @ triple_single @ body @ triple_double @ ws') = Inl AssertionError
        \<and> strip_docstring (ws @ triple_double @ body @ triple_double @ ws') = Inr (strip body)
        \<and> strip_docstring (ws @ triple_single @ body @ triple_single @ ws') = Inr (strip body))"
proof (intro conjI impI)
  assume a: "startswith (lstrip docstring) triple_single \<and> \<not> endswith (rstrip docstring) triple_single"
  then show s: "strip_docstring docstring = Inl AssertionError"
    by (simp add: strip_docstring_def)
  then show "format_docstring indentation docstring = Inl AssertionError"
    by (simp add: format_docstring_def)
next
  assume "\<not> startswith (lstrip docstring) triple_single"
  then show "strip_docstring docstring \<noteq> Inl AssertionError"
    by (auto simp: strip_docstring_def getitem_def Let_def split: sum.splits if_splits)
next
  assume a: "(\<forall>c \<in> set ws. isspace c) \<and> (\<forall>c \<in> set ws'. isspace c)"
  let ?d = "ws @ triple_single @ body @ triple_double @ ws'"
  have "lstrip ?d = triple_single @ body @ triple_double @ ws'"
    using a by (simp add: lstrip_def dropWhile_append isspace_simps)
  then have st: "startswith (lstrip ?d) triple_single" by (simp add: startswith_def)
  have "rstrip ?d = ws @ triple_single @ body @ triple_double"
    using a by (simp add: rstrip_def dropWhile_append isspace_simps)
  then have "\<not> endswith (rstrip ?d) triple_single"
    by (simp add: endswith_def suffix_def)
  with st show "strip_docstring ?d = Inl AssertionError"
    by (simp add: strip_docstring_def)
next
  assume a: "(\<forall>c \<in> set ws. isspace c) \<and> (\<forall>c \<in> set ws'. isspace c)"
  then show "strip_docstring (ws @ triple_double @ body @ triple_double @ ws') = Inr (strip body)"
    by (intro strip_docstring_double) simp_all
next
  assume a: "(\<forall>c \<in> set ws. isspace c) \<and> (\<forall>c \<in> set ws'. isspace c)"
  then show "strip_docstring (ws @ triple_single @ body @ triple_single @ ws') = Inr (strip body)"
    by (intro strip_docstring_single) simp_all
qed

theorem strip_docstring_delimiters_witness:
  "startswith (lstrip (triple_single @ ''abc'' @ triple_double)) triple_single
   \<and> \<not> endswith (rstrip (triple_single @ ''abc'' @ triple_double)) triple_single
   \<and> strip_docstring (triple_single @ ''abc'' @ triple_double) = Inl AssertionError
   \<and> format_docstring ''    '' (triple_single @ ''abc'' @ triple_double) = Inl AssertionError
   \<and> \<not> startswith (lstrip (triple_double @ ''abc'' @ triple_single)) triple_single
   \<and> strip_docstring (triple_double @ ''abc'' @ triple_single) \<noteq> Inl AssertionError
   \<and> isspace (CHR '' '')
   \<and> strip_docstring ('' '' @ triple_single @ '' abc '' @ triple_single @ '' '') = Inr ''abc''
   \<and> strip_docstring ('' '' @ triple_double @ '' abc '' @ triple_double @ '' '') = Inr ''abc''"
proof -
  have h1: "startswith (lstrip (triple_single @ ''abc'' @ triple_double)) triple_single"
    by (simp add: startswith_def lstrip_def isspace_def)
  have h2: "\<not> endswith (rstrip (triple_single @ ''abc'' @ triple_double)) triple_single"
    by (simp add: endswith_def rstrip_def isspace_def suffix_def)
  have h3: "\<not> startswith (lstrip (triple_double @ ''abc'' @ triple_single)) triple_single"
    by (simp add: startswith_def lstrip_def isspace_def)
  have h4: "isspace (CHR '' '')" by (simp add: isspace_def)
  have s: "strip '' abc '' = ''abc''" by (simp add: lstrip_def rstrip_def strip_def isspace_def)
  note t1 = strip_docstring_delimiters
    [where docstring = "triple_single @ ''abc'' @ triple_double" and indentation = "''    ''"
       and ws = "'' ''" and ws' = "'' ''" and body = "'' abc ''"]
  note t2 = strip_docstring_delimiters
    [where docstring = "triple_double @ ''abc'' @ triple_single" and indentation = "''    ''"
       and ws = "'' ''" and ws' = "'' ''" and body = "'' abc ''"]
  from h1 h2 h3 h4 s t1 t2 show ?thesis by simp
qed

text \<open>
  C6, the claim as stated, fails: a docstring that opens with three double quotes and closes
  with three single quotes raises nothing; its contents are everything behind the opening
  delimiter.
\<close>

theorem strip_docstring_double_then_single:
  "strip_docstring (triple_double @ ''abc'' @ triple_single) = Inr (''abc'' @ triple_single)
   \<and> format_docstring ''    '' (triple_double @ ''abc'' @ triple_single)
       = Inr (triple_double @ ''abc'' @ triple_single @ triple_double)"
  by (simp add: eval_defs)



text \<open>
  C8. When the contents are not empty and their description is empty, the result is the
  opening triple quote, the stripped contents as they are, and the closing triple quote; the
  summary is not normalized. The one-sentence docstring \<open>Just this.\<close> between triple
  double quotes comes back unchanged. (Empty contents never reach the split: they are the
  case of C9.)
\<close>

theorem format_docstring_without_description:
  "(strip_docstring docstring = Inr contents \<and> contents \<noteq> []
      \<and> snd (split_summary_and_description contents) = [] \<longrightarrow>
        format_docstring indentation docstring = Inr (triple_double @ contents @ triple_double))
   \<and> format_docstring indentation (triple_double @ ''Just this.'' @ triple_double)
        = Inr (triple_double @ ''Just this.'' @ triple_double)"
proof (intro conjI impI)
  assume "strip_docstring docstring = Inr contents \<and> contents \<noteq> []
      \<and> snd (split_summary_and_description contents) = []"
  then show "format_docstring indentation docstring = Inr (triple_double @ contents @ triple_double)"
    by (simp add: format_docstring_no_description)
next
  show "format_docstring indentation (triple_double @ ''Just this.'' @ triple_double)
        = Inr (triple_double @ ''Just this.'' @ triple_double)"
    by (simp add: format_docstring_def strip_docstring_def startswith_def endswith_def
        lstrip_def rstrip_def strip_def isspace_def getitem_def split1_def rsplit1_def
        split_summary_and_description_eq re_split_period_space_def)
qed

theorem format_docstring_without_description_witness:
  "strip_docstring (triple_double @ ''  Just this '' @ triple_double) = Inr ''Just this''
   \<and> ''Just this'' \<noteq> []
   \<and> snd (split_summary_and_description ''Just this'') = []
   \<and> format_docstring ''    '' (triple_double @ ''  Just this '' @ triple_double)
       = Inr (triple_double @ ''Just this'' @ triple_double)"
proof -
  have h: "strip_docstring (triple_double @ ''  Just this '' @ triple_double) = Inr ''Just this''"
    by (simp add: strip_docstring_def startswith_def endswith_def lstrip_def rstrip_def
        strip_def isspace_def getitem_def split1_def rsplit1_def)
  have d: "snd (split_summary_and_description ''Just this'') = []"
    by (simp add: split_summary_and_description_eq re_split_period_space_def
        lstrip_def rstrip_def strip_def isspace_def)
  from h d format_docstring_without_description
    [where docstring = "triple_double @ ''  Just this '' @ triple_double"
       and contents = "''Just this''" and indentation = "''    ''"]
  show ?thesis by simp
qed

text \<open>
  C9. A docstring whose contents are empty once the delimiters and the surrounding whitespace
  are stripped is formatted to the empty string. The second part says which docstrings these
  are: whitespace, a triple quote, a body of whitespace only, the same triple quote,
  whitespace.
\<close>

theorem format_docstring_empty_contents:
  "(strip_docstring docstring = Inr [] \<longrightarrow> format_docstring indentation docstring = Inr [])
   \<and> ((\<forall>c \<in> set ws. isspace c) \<and> (\<forall>c \<in> set body. isspace c) \<and> (\<forall>c \<in> set ws'. isspace c) \<longrightarrow>
          format_docstring indentation (ws @ triple_double @ body @ triple_double @ ws') = Inr []
        \<and> format_docstring indentation (ws @ triple_single @ body @ triple_single @ ws') = Inr [])"
proof (intro conjI impI)
  assume "strip_docstring docstring = Inr []"
  then show "format_docstring indentation docstring = Inr []"
    by (simp add: format_docstring_def)
next
  assume a: "(\<forall>c \<in> set ws. isspace c) \<and> (\<forall>c \<in> set body. isspace c) \<and> (\<forall>c \<in> set ws'. isspace c)"
  then have "strip body = []" by (simp add: strip_Nil_iff)
  moreover have "strip_docstring (ws @ triple_double @ body @ triple_double @ ws') = Inr (strip body)"
    using a by (intro strip_docstring_double) simp_all
  ultimately show "format_docstring indentation (ws @ triple_double @ body @ triple_double @ ws') = Inr []"
    by (simp add: format_docstring_def)
next
  assume a: "(\<forall>c \<in> set ws. isspace c) \<and> (\<forall>c \<in> set body. isspace c) \<and> (\<forall>c \<in> set ws'. isspace c)"
  then have "strip body = []" by (simp add: strip_Nil_iff)
  moreover have "strip_docstring (ws @ triple_single @ body @ triple_single @ ws') = Inr (strip body)"
    using a by (intro strip_docstring_single) simp_all
  ultimately show "format_docstring indentation (ws @ triple_single @ body @ triple_single @ ws') = Inr []"
    by (simp add: format_docstring_def)
qed

theorem format_docstring_empty_contents_witness:
  "strip_docstring (triple_double @ '' '' @ triple_double) = Inr []
   \<and> isspace (CHR '' '')
   \<and> format_docstring ''    '' (triple_double @ '' '' @ triple_double) = Inr []"
proof -
  have h: "strip_docstring (triple_double @ '' '' @ triple_double) = Inr []"
    by (simp add: strip_docstring_def startswith_def endswith_def lstrip_def rstrip_def
        strip_def isspace_def getitem_def split1_def rsplit1_def)
  have w: "isspace (CHR '' '')" by (simp add: isspace_def)
  from h w format_docstring_empty_contents
    [where docstring = "triple_double @ '' '' @ triple_double" and indentation = "''    ''"
       and ws = "[]" and body = "'' ''" and ws' = "[]"]
  show ?thesis by simp
qed

text \<open>
  C10. \<open>normalize_summary\<close> is idempotent, for the reasons the claim gives: its result holds
  no line feed, is not changed by \<open>strip\<close>, and ends with a period.
\<close>

theorem normalize_summary_idempotent:
  "normalize_summary (normalize_summary s) = normalize_summary s
   \<and> nl \<notin> set (normalize_summary s)
   \<and> strip (normalize_summary s) = normalize_summary s
   \<and> endswith (normalize_summary s) ''.''"
proof (intro conjI)
  show "normalize_summary (normalize_summary s) = normalize_summary s"
    by (rule normalize_summary_idem)
  show "nl \<notin> set (normalize_summary s)" by (rule normalize_summary_no_nl)
  show "endswith (normalize_summary s) ''.''" by (rule normalize_summary_period)
  have "\<not> isspace (last (normalize_summary s))"
    using normalize_summary_period[of s] by (auto simp: endswith_single isspace_simps)
  then show "strip (normalize_summary s) = normalize_summary s"
    using normalize_summary_hd[of s] by (simp add: strip_id)
qed

theorem normalize_summary_idempotent_witness:
  "normalize_summary (''  a '' @ [nl] @ ''  b  '') = ''a b.''
   \<and> normalize_summary ''a b.'' = ''a b.''"
proof -
  have e: "normalize_summary (''  a '' @ [nl] @ ''  b  '') = ''a b.''"
    by (simp add: normalize_summary_eq lstrip_def rstrip_def strip_def isspace_def
        endswith_def suffix_def)
  from e normalize_summary_idempotent[of "''  a '' @ [nl] @ ''  b  ''"]
  show ?thesis by simp
qed

end
